theory Spec2Isabelle
  imports Main "HOL-Library.Sublist"
begin

section \<open>The crawler of \<^verbatim>\<open>crawler.py\<close>, embedded in HOL\<close>

text \<open>
  The development follows \<^verbatim>\<open>src/crawler.py\<close> (class \<^verbatim>\<open>WebCrawler\<close>) and the page
  fetcher of \<^verbatim>\<open>src/scrape_playwright.py\<close>.

  Python values are represented as follows.
  \<^item> \<^verbatim>\<open>str\<close> is \<open>string\<close>; the URLs of the examples are ASCII.
  \<^item> A \<^verbatim>\<open>set\<close> of strings (\<^verbatim>\<open>visited_urls\<close>, \<^verbatim>\<open>found_links\<close>, the local \<^verbatim>\<open>links\<close>) is
    the list of its elements in the order in which they were added. The code reads such
    a set only through \<^verbatim>\<open>in\<close>, \<^verbatim>\<open>len\<close> and, for \<^verbatim>\<open>links\<close>, \<^verbatim>\<open>list(...)\<close>; the model reads
    it through \<open>set\<close>, \<open>set_len\<close> and the parameter \<open>set_iter\<close>.
  \<^item> The \<^verbatim>\<open>dict\<close> \<^verbatim>\<open>scraped_content\<close> is an association list in insertion order, which
    is the order a Python dict iterates in.
  \<^item> The \<^verbatim>\<open>deque\<close> \<^verbatim>\<open>url_queue\<close> is a list whose head is the left end.
\<close>

subsection \<open>Strings\<close>

definition ascii_uppercase :: string where
  "ascii_uppercase = ''ABCDEFGHIJKLMNOPQRSTUVWXYZ''"

definition ascii_lowercase :: string where
  "ascii_lowercase = ''abcdefghijklmnopqrstuvwxyz''"

definition digits :: string where
  "digits = ''0123456789''"

definition lower_char :: "char \<Rightarrow> char" where
  "lower_char c =
     (case map_of (zip ascii_uppercase ascii_lowercase) c of Some l \<Rightarrow> l | None \<Rightarrow> c)"

text \<open>
  \<^verbatim>\<open>str.lower()\<close> on ASCII text: the letters \<^verbatim>\<open>A\<close> to \<^verbatim>\<open>Z\<close> are lowered and every other
  character is kept. Python lowers the capital letters outside ASCII as well, so the two
  differ on URLs with such letters only.
\<close>

definition lower :: "string \<Rightarrow> string" where
  "lower s = map lower_char s"

text \<open>\<^verbatim>\<open>s.startswith(p)\<close>, \<^verbatim>\<open>s.endswith(e)\<close> and \<^verbatim>\<open>k in s\<close> on strings.\<close>

definition startswith :: "string \<Rightarrow> string \<Rightarrow> bool" where
  "startswith s p = prefix p s"

definition endswith :: "string \<Rightarrow> string \<Rightarrow> bool" where
  "endswith s e = suffix e s"

definition contains :: "string \<Rightarrow> string \<Rightarrow> bool" where
  "contains s k = sublist k s"

subsection \<open>Python sets and dicts\<close>

definition set_add :: "'a \<Rightarrow> 'a list \<Rightarrow> 'a list" where
  "set_add x xs = (if x \<in> set xs then xs else xs @ [x])"

definition set_len :: "'a list \<Rightarrow> nat" where
  "set_len xs = length (remdups xs)"

text \<open>\<^verbatim>\<open>d[k] = v\<close>: an existing key keeps its place, a new key goes last.\<close>

fun dict_set :: "'k \<Rightarrow> 'v \<Rightarrow> ('k \<times> 'v) list \<Rightarrow> ('k \<times> 'v) list" where
  "dict_set k v [] = [(k, v)]"
| "dict_set k v (p # ps) = (if fst p = k then (k, v) # ps else p # dict_set k v ps)"

subsection \<open>Configuration tables\<close>

definition EXCLUDED_EXTENSIONS :: "string list" where
  "EXCLUDED_EXTENSIONS =
     [''.pdf'', ''.doc'', ''.docx'', ''.xls'', ''.xlsx'', ''.ppt'', ''.pptx'', ''.zip'',
      ''.rar'', ''.tar'', ''.gz'', ''.exe'', ''.dmg'', ''.pkg'', ''.jpg'', ''.jpeg'',
      ''.png'', ''.gif'', ''.bmp'', ''.svg'', ''.ico'', ''.mp3'', ''.mp4'', ''.avi'',
      ''.mov'', ''.wmv'', ''.flv'', ''.webm'', ''.css'', ''.js'', ''.xml'', ''.json'']"

definition EXCLUDED_URL_KEYWORDS :: "string list" where
  "EXCLUDED_URL_KEYWORDS =
     [''logout'', ''login'', ''signin'', ''signup'', ''register'', ''admin'',
      ''dashboard'', ''profile'', ''settings'', ''cart'', ''checkout'', ''payment'',
      ''billing'', ''download'', ''upload'', ''api'', ''feed'']"

subsection \<open>The collaborators\<close>

text \<open>
  What one call of Playwright does for a URL: the page loads and has the given content,
  \<^verbatim>\<open>page.goto\<close> or \<^verbatim>\<open>page.content\<close> raises (inside the \<^verbatim>\<open>try\<close>), or the browser itself
  raises (outside the \<^verbatim>\<open>try\<close>).
\<close>

datatype page_load = Loaded string | LoadFailed | BrowserFailed

text \<open>
  The library calls and the network are parameters of the model:
  \<^item> \<open>browser n url\<close>: what Playwright does for \<open>url\<close> in iteration \<open>n\<close> of the crawl
    loop, so that every sequence of fetch results is some \<open>browser\<close>;
  \<^item> \<open>find_all_a_href html\<close>: the \<^verbatim>\<open>href\<close> values of
    \<^verbatim>\<open>BeautifulSoup(html, "html.parser").find_all("a", href=True)\<close>, in document order;
  \<^item> \<open>urljoin base href\<close>: \<^verbatim>\<open>urllib.parse.urljoin(base, href)\<close>, \<open>None\<close> when it raises
    \<^verbatim>\<open>ValueError\<close> (as for the href \<^verbatim>\<open>http://[\<close>);
  \<^item> \<open>netloc url\<close>: \<^verbatim>\<open>urllib.parse.urlparse(url).netloc\<close>, \<open>None\<close> when \<^verbatim>\<open>urlparse\<close> raises
    \<^verbatim>\<open>ValueError\<close>;
  \<^item> \<open>set_iter xs\<close>: the order in which Python iterates over the set built by adding
    the elements \<open>xs\<close> in this order (\<^verbatim>\<open>list(links)\<close>).
  The parser of BeautifulSoup accepts every markup. The crawler catches none of the
  exceptions of \<^verbatim>\<open>urljoin\<close> and \<^verbatim>\<open>urlparse\<close>.
\<close>

record env =
  browser :: "nat \<Rightarrow> string \<Rightarrow> page_load"
  find_all_a_href :: "string \<Rightarrow> string list"
  urljoin :: "string \<Rightarrow> string \<Rightarrow> string option"
  netloc :: "string \<Rightarrow> string option"
  set_iter :: "string list \<Rightarrow> string list"

text \<open>The environments in which \<^verbatim>\<open>urlparse\<close> and \<^verbatim>\<open>urljoin\<close> raise on no input.\<close>

definition libs_return :: "env \<Rightarrow> bool" where
  "libs_return E = ((\<forall>url. netloc E url \<noteq> None) \<and> (\<forall>base href. urljoin E base href \<noteq> None))"

text \<open>Python guarantees that iterating over a set yields each element once.\<close>

definition set_iter_ok :: "env \<Rightarrow> bool" where
  "set_iter_ok E =
     (\<forall>xs. distinct xs \<longrightarrow> set (set_iter E xs) = set xs \<and> distinct (set_iter E xs))"

datatype error = ZeroDivisionError | PlaywrightError | ValueError

subsection \<open>The crawler object\<close>

datatype message =
    Starting
  | Scraping
  | FoundNew nat
  | Failed
  | Completed nat nat

text \<open>
  The dict passed to the progress callback, each key with the prefix \<open>p_\<close>. The key
  \<^verbatim>\<open>progress_percentage\<close> is a float and is left out; the division that computes it is
  modelled in \<open>update_progress\<close>.
\<close>

record progress_data =
  p_message :: message
  p_current_url :: "string option"
  p_visited_count :: nat
  p_queue_size :: nat
  p_total_links_found :: nat
  p_links_on_current_page :: nat
  p_max_pages :: int

text \<open>What the crawler does to the outside, in the order it does it.\<close>

datatype effect = Progress progress_data | Fetch string | Sleep int

record crawler =
  max_pages :: int
  delay :: int
  same_domain_only :: bool
  visited_urls :: "string list"
  scraped_content :: "(string \<times> string) list"
  url_queue :: "string list"
  found_links :: "string list"
  progress_callback :: bool
  trace :: "effect list"

text \<open>\<^verbatim>\<open>WebCrawler.__init__\<close>; \<open>cb\<close> says whether a progress callback was given.\<close>

definition init :: "int \<Rightarrow> int \<Rightarrow> bool \<Rightarrow> bool \<Rightarrow> crawler" where
  "init mp d sdo cb =
     \<lparr>max_pages = mp, delay = d, same_domain_only = sdo, visited_urls = [],
      scraped_content = [], url_queue = [], found_links = [], progress_callback = cb,
      trace = []\<rparr>"

text \<open>\<^verbatim>\<open>get_domain\<close>: the \<^verbatim>\<open>ValueError\<close> of \<^verbatim>\<open>urlparse\<close> passes through.\<close>

definition get_domain :: "env \<Rightarrow> string \<Rightarrow> error + string" where
  "get_domain E url = (case netloc E url of None \<Rightarrow> Inl ValueError | Some domain \<Rightarrow> Inr domain)"

text \<open>
  \<^verbatim>\<open>is_valid_url\<close>: \<^verbatim>\<open>get_domain\<close> is called, and may raise, only when the three earlier
  tests let the URL pass and \<^verbatim>\<open>same_domain_only\<close> is set.
\<close>

definition is_valid_url :: "env \<Rightarrow> crawler \<Rightarrow> string \<Rightarrow> string \<Rightarrow> error + bool" where
  "is_valid_url E self url base_domain =
     (if url = [] \<or> startswith url ''#'' \<or> startswith url ''mailto:'' \<or> startswith url ''tel:''
      then Inr False
      else let url_lower = lower url in
        if list_ex (\<lambda>ext. endswith url_lower ext) EXCLUDED_EXTENSIONS then Inr False
        else if list_ex (\<lambda>keyword. contains url_lower keyword) EXCLUDED_URL_KEYWORDS then Inr False
        else if same_domain_only self
          then (case get_domain E url of
                  Inl e \<Rightarrow> Inl e
                | Inr domain \<Rightarrow> Inr (domain = base_domain))
        else Inr True)"

subsection \<open>A model of \<^verbatim>\<open>urlparse(url).netloc\<close>\<close>

text \<open>
  Modelled from the Python standard library (\<^verbatim>\<open>urllib.parse.urlsplit\<close>), for URLs without
  leading blanks and control characters: a scheme is a prefix of scheme characters that
  starts with a letter and ends before the first colon; the network location is what
  follows \<^verbatim>\<open>//\<close> up to the first \<^verbatim>\<open>/\<close>, \<^verbatim>\<open>?\<close> or \<^verbatim>\<open>#\<close>; a network location with one of
  the two square brackets and not the other raises \<^verbatim>\<open>ValueError\<close> (a location with both
  is taken as accepted). It instantiates \<open>netloc\<close> in the examples.
\<close>

definition is_alpha :: "char \<Rightarrow> bool" where
  "is_alpha c = (List.member (ascii_lowercase @ ascii_uppercase) c)"

definition is_scheme_char :: "char \<Rightarrow> bool" where
  "is_scheme_char c = (List.member (ascii_lowercase @ ascii_uppercase @ digits @ ''+-.'') c)"

definition strip_scheme :: "string \<Rightarrow> string" where
  "strip_scheme url =
     (let pre = takeWhile (\<lambda>c. c \<noteq> CHR '':'') url in
        if pre \<noteq> [] \<and> length pre < length url \<and> is_alpha (hd pre) \<and> list_all is_scheme_char pre
        then drop (Suc (length pre)) url
        else url)"

definition urlparse_netloc :: "string \<Rightarrow> string option" where
  "urlparse_netloc url =
     (let rest = strip_scheme url in
        if startswith rest ''//''
        then let loc = takeWhile (\<lambda>c. c \<noteq> CHR ''/'' \<and> c \<noteq> CHR ''?'' \<and> c \<noteq> CHR ''#'')
                         (drop 2 rest)
             in if (CHR ''['' \<in> set loc \<and> CHR '']'' \<notin> set loc)
                   \<or> (CHR '']'' \<in> set loc \<and> CHR ''['' \<notin> set loc)
                then None else Some loc
        else Some [])"

subsection \<open>Fetching a page\<close>

text \<open>
  \<^verbatim>\<open>scrape_website_playwright\<close>: a failure of \<^verbatim>\<open>page.goto\<close> or \<^verbatim>\<open>page.content\<close> is caught
  and the empty string is returned; a failure of the browser is not caught.
\<close>

definition scrape_website_playwright :: "page_load \<Rightarrow> error + string" where
  "scrape_website_playwright r =
     (case r of Loaded content \<Rightarrow> Inr content | LoadFailed \<Rightarrow> Inr [] | BrowserFailed \<Rightarrow> Inl PlaywrightError)"

text \<open>\<^verbatim>\<open>scrape_single_page\<close>: any exception of the fetcher becomes \<^verbatim>\<open>None\<close>.\<close>

definition scrape_single_page :: "env \<Rightarrow> nat \<Rightarrow> string \<Rightarrow> string option" where
  "scrape_single_page E n url =
     (case scrape_website_playwright (browser E n url) of
        Inl e \<Rightarrow> None
      | Inr html_content \<Rightarrow> Some html_content)"

subsection \<open>Progress\<close>

text \<open>
  \<^verbatim>\<open>update_progress\<close>: nothing happens without a callback. With one, the percentage
  divides by \<^verbatim>\<open>max_pages\<close> before the callback is called.
\<close>

definition progress_data :: "message \<Rightarrow> string option \<Rightarrow> nat \<Rightarrow> crawler \<Rightarrow> progress_data" where
  "progress_data msg cur links_found self =
     \<lparr>p_message = msg, p_current_url = cur,
      p_visited_count = set_len (visited_urls self),
      p_queue_size = length (url_queue self),
      p_total_links_found = set_len (found_links self),
      p_links_on_current_page = links_found,
      p_max_pages = max_pages self\<rparr>"

definition update_progress :: "message \<Rightarrow> string option \<Rightarrow> nat \<Rightarrow> crawler \<Rightarrow> error + crawler" where
  "update_progress msg cur links_found self =
     (if progress_callback self
      then if max_pages self = 0 then Inl ZeroDivisionError
           else Inr (self\<lparr>trace := trace self @ [Progress (progress_data msg cur links_found self)]\<rparr>)
      else Inr self)"

subsection \<open>Link extraction\<close>

text \<open>
  The loop of \<^verbatim>\<open>extract_links\<close> over the anchors (lines 119 to 124), on the local set
  \<^verbatim>\<open>links\<close>: an exception of \<^verbatim>\<open>urljoin\<close> or of \<^verbatim>\<open>is_valid_url\<close> ends it.
\<close>

fun collect_links ::
    "env \<Rightarrow> crawler \<Rightarrow> string \<Rightarrow> string \<Rightarrow> string list \<Rightarrow> string list \<Rightarrow> error + string list" where
  "collect_links E self base_url base_domain [] links = Inr links"
| "collect_links E self base_url base_domain (href # hrefs) links =
     (case urljoin E base_url href of
        None \<Rightarrow> Inl ValueError
      | Some absolute_url \<Rightarrow>
          (case is_valid_url E self absolute_url base_domain of
             Inl e \<Rightarrow> Inl e
           | Inr valid \<Rightarrow>
               collect_links E self base_url base_domain hrefs
                 (if valid then set_add absolute_url links else links)))"

text \<open>
  \<^verbatim>\<open>extract_links\<close>: the base domain is the domain of the page the links stand on,
  computed before the loop.
\<close>

definition extract_links :: "env \<Rightarrow> crawler \<Rightarrow> string \<Rightarrow> string \<Rightarrow> error + string list" where
  "extract_links E self html_content base_url =
     (case get_domain E base_url of
        Inl e \<Rightarrow> Inl e
      | Inr base_domain \<Rightarrow>
          (case collect_links E self base_url base_domain (find_all_a_href E html_content) [] of
             Inl e \<Rightarrow> Inl e
           | Inr links \<Rightarrow> Inr (set_iter E links)))"

text \<open>
  Step 5 of the crawl driver in the words of the specification: the links of a page are
  filtered with the domain of the seed of the session as base domain, not with the
  domain of the page. It is compared with \<open>extract_links\<close> below.
\<close>

definition spec_extract_links ::
    "env \<Rightarrow> crawler \<Rightarrow> string \<Rightarrow> string \<Rightarrow> string \<Rightarrow> error + string list" where
  "spec_extract_links E self seed_domain html_content page_url =
     (case collect_links E self page_url seed_domain (find_all_a_href E html_content) [] of
        Inl e \<Rightarrow> Inl e
      | Inr links \<Rightarrow> Inr (set_iter E links))"

subsection \<open>The crawl loop\<close>

text \<open>
  The body of \<^verbatim>\<open>for link in page_links\<close> (lines 184 to 188), on the crawler and the
  local \<^verbatim>\<open>new_links_count\<close>.
\<close>

definition offer :: "string \<Rightarrow> crawler \<times> nat \<Rightarrow> crawler \<times> nat" where
  "offer link = (\<lambda>(self, new_links_count).
     if link \<notin> set (found_links self)
     then let s1 = self\<lparr>found_links := set_add link (found_links self)\<rparr> in
            (if link \<notin> set (visited_urls s1) \<and> link \<notin> set (url_queue s1)
             then s1\<lparr>url_queue := url_queue s1 @ [link]\<rparr> else s1,
             new_links_count + 1)
     else (self, new_links_count))"

text \<open>Lines 177 and 178: the page is marked visited and its content stored.\<close>

definition mark_visited :: "string \<Rightarrow> string \<Rightarrow> crawler \<Rightarrow> crawler" where
  "mark_visited current_url html_content self =
     self\<lparr>visited_urls := set_add current_url (visited_urls self),
          scraped_content := dict_set current_url html_content (scraped_content self)\<rparr>"

text \<open>The condition of the \<^verbatim>\<open>while\<close> loop.\<close>

definition loop_cond :: "crawler \<Rightarrow> bool" where
  "loop_cond self = (url_queue self \<noteq> [] \<and> int (set_len (visited_urls self)) < max_pages self)"

text \<open>
  One iteration of the loop, number \<open>n\<close>. \<^verbatim>\<open>popleft\<close> raises on an empty deque; the loop
  condition excludes it, and the model returns the crawler as it is. An exception of
  \<^verbatim>\<open>extract_links\<close> is not caught: it ends the iteration, the loop and \<^verbatim>\<open>crawl_website\<close>,
  after the page has been marked visited.
\<close>

definition crawl_iter :: "env \<Rightarrow> nat \<Rightarrow> crawler \<Rightarrow> error + crawler" where
  "crawl_iter E n self =
     (case url_queue self of
        [] \<Rightarrow> Inr self
      | current_url # rest \<Rightarrow>
          let s1 = self\<lparr>url_queue := rest\<rparr> in
          if current_url \<in> set (visited_urls s1) then Inr s1
          else
            (case update_progress Scraping (Some current_url) 0 s1 of
               Inl e \<Rightarrow> Inl e
             | Inr s2 \<Rightarrow>
                 let s3 = s2\<lparr>trace := trace s2 @ [Fetch current_url]\<rparr> in
                 (case scrape_single_page E n current_url of
                    None \<Rightarrow> update_progress Failed (Some current_url) 0 s3
                  | Some html_content \<Rightarrow>
                      if html_content = [] then update_progress Failed (Some current_url) 0 s3
                      else
                        let s4 = mark_visited current_url html_content s3 in
                        (case extract_links E s4 html_content current_url of
                           Inl e \<Rightarrow> Inl e
                         | Inr page_links \<Rightarrow>
                             (case fold offer page_links (s4, 0) of
                                (s5, new_links_count) \<Rightarrow>
                                  (case update_progress (FoundNew new_links_count)
                                          (Some current_url) (length page_links) s5 of
                                     Inl e \<Rightarrow> Inl e
                                   | Inr s6 \<Rightarrow>
                                       Inr (if 0 < delay s6
                                            then s6\<lparr>trace := trace s6 @ [Sleep (delay s6)]\<rparr>
                                            else s6)))))))"

function crawl_loop :: "env \<Rightarrow> nat \<Rightarrow> crawler \<Rightarrow> error + crawler" where
  "crawl_loop E n self =
     (if loop_cond self
      then (case crawl_iter E n self of
              Inl e \<Rightarrow> Inl e
            | Inr self' \<Rightarrow> crawl_loop E (Suc n) self')
      else Inr self)"
  by pat_completeness auto

text \<open>Line 159: the queue is reset to the start URL.\<close>

definition enqueue_start :: "string \<Rightarrow> crawler \<Rightarrow> crawler" where
  "enqueue_start start_url self = self\<lparr>url_queue := [start_url]\<rparr>"

text \<open>
  Lines 159 to 162: the queue is reset to the start URL, \<^verbatim>\<open>get_domain(start_url)\<close> is
  called for nothing but its exception, and the start URL is added to the found links.
\<close>

definition seed :: "env \<Rightarrow> string \<Rightarrow> crawler \<Rightarrow> error + crawler" where
  "seed E start_url self =
     (let s1 = enqueue_start start_url self in
      case get_domain E start_url of
        Inl e \<Rightarrow> Inl e
      | Inr unused \<Rightarrow> Inr (s1\<lparr>found_links := set_add start_url (found_links s1)\<rparr>))"

text \<open>Lines 159 to 164: the seeding and the first progress event.\<close>

definition crawl_begin :: "env \<Rightarrow> string \<Rightarrow> crawler \<Rightarrow> error + crawler" where
  "crawl_begin E start_url self =
     (case seed E start_url self of
        Inl e \<Rightarrow> Inl e
      | Inr s0 \<Rightarrow> update_progress Starting (Some start_url) 0 s0)"

text \<open>
  \<^verbatim>\<open>crawl_website\<close>: the returned dict, and the crawler object as the call leaves it.
\<close>

definition crawl_website ::
    "env \<Rightarrow> string \<Rightarrow> crawler \<Rightarrow> error + ((string \<times> string) list \<times> crawler)" where
  "crawl_website E start_url self =
     (case crawl_begin E start_url self of
        Inl e \<Rightarrow> Inl e
      | Inr s1 \<Rightarrow>
          (case crawl_loop E 0 s1 of
             Inl e \<Rightarrow> Inl e
           | Inr s2 \<Rightarrow>
               (case update_progress
                       (Completed (set_len (visited_urls s2)) (set_len (found_links s2))) None 0 s2 of
                  Inl e \<Rightarrow> Inl e
                | Inr s3 \<Rightarrow> Inr (scraped_content s3, s3))))"

text \<open>
  The crawlers that stand at the head of the loop in a run that begins the loop with
  \<open>s0\<close>, each with the number of its iteration.
\<close>

inductive_set loop_states :: "env \<Rightarrow> crawler \<Rightarrow> (nat \<times> crawler) set" for E s0 where
  start: "(0, s0) \<in> loop_states E s0"
| iter: "(n, s) \<in> loop_states E s0 \<Longrightarrow> loop_cond s \<Longrightarrow> crawl_iter E n s = Inr s'
         \<Longrightarrow> (Suc n, s') \<in> loop_states E s0"

subsection \<open>The points of an iteration\<close>

text \<open>
  The crawler object changes one attribute at a time. \<open>offer_points links s\<close> lists the
  objects after each single change made while \<open>links\<close> are offered to \<open>s\<close> (first
  \<^verbatim>\<open>found_links.add\<close>, then \<^verbatim>\<open>url_queue.append\<close>), and \<open>iter_points E n s\<close> those of the
  whole iteration \<open>n\<close> begun in \<open>s\<close>: after \<^verbatim>\<open>popleft\<close>, after \<^verbatim>\<open>visited_urls.add\<close>, after
  the assignment to \<^verbatim>\<open>scraped_content\<close>, and, unless \<^verbatim>\<open>extract_links\<close> raises, after each
  change of the link loop. The trace is left as it was at the head of the loop.
\<close>

fun offer_points :: "string list \<Rightarrow> crawler \<Rightarrow> crawler list" where
  "offer_points [] s = []"
| "offer_points (link # links) s =
     (if link \<notin> set (found_links s)
      then let s1 = s\<lparr>found_links := set_add link (found_links s)\<rparr> in
             if link \<notin> set (visited_urls s1) \<and> link \<notin> set (url_queue s1)
             then let s2 = s1\<lparr>url_queue := url_queue s1 @ [link]\<rparr>
                  in s1 # s2 # offer_points links s2
             else s1 # offer_points links s1
      else offer_points links s)"

definition iter_points :: "env \<Rightarrow> nat \<Rightarrow> crawler \<Rightarrow> crawler list" where
  "iter_points E n s =
     (case url_queue s of
        [] \<Rightarrow> []
      | current_url # rest \<Rightarrow>
          let s1 = s\<lparr>url_queue := rest\<rparr> in
          if current_url \<in> set (visited_urls s1) then [s1]
          else
            (case scrape_single_page E n current_url of
               None \<Rightarrow> [s1]
             | Some html_content \<Rightarrow>
                 if html_content = [] then [s1]
                 else
                   let s2 = s1\<lparr>visited_urls := set_add current_url (visited_urls s1)\<rparr>;
                       s3 = s2\<lparr>scraped_content :=
                                 dict_set current_url html_content (scraped_content s2)\<rparr>
                   in s1 # s2 # s3 #
                      (case extract_links E s3 html_content current_url of
                         Inl e \<Rightarrow> []
                       | Inr page_links \<Rightarrow> offer_points page_links s3)))"

text \<open>
  The points of a crawl that \<^verbatim>\<open>crawl_website\<close> runs from \<open>start_url\<close> on the object
  \<open>self\<close>: the object with the start URL in the queue and not yet among the found links
  (after line 159; the object stays so when line 161 raises), the object once the start
  URL is seeded, the objects at the head of the loop, the points of each iteration, and
  the object the call leaves behind when it returns.
\<close>

inductive_set crawl_points :: "env \<Rightarrow> string \<Rightarrow> crawler \<Rightarrow> crawler set"
  for E start_url self where
  queued: "enqueue_start start_url self \<in> crawl_points E start_url self"
| seeded: "seed E start_url self = Inr s0 \<Longrightarrow> s0 \<in> crawl_points E start_url self"
| head: "crawl_begin E start_url self = Inr s1
         \<Longrightarrow> (n, s) \<in> loop_states E s1 \<Longrightarrow> s \<in> crawl_points E start_url self"
| inside: "crawl_begin E start_url self = Inr s1
         \<Longrightarrow> (n, s) \<in> loop_states E s1 \<Longrightarrow> loop_cond s \<Longrightarrow> p \<in> set (iter_points E n s)
         \<Longrightarrow> p \<in> crawl_points E start_url self"
| final: "crawl_website E start_url self = Inr (content, s')
         \<Longrightarrow> s' \<in> crawl_points E start_url self"

subsection \<open>Orders of fetching and of discovery\<close>

text \<open>The URLs fetched, in the order of fetching, read off the trace.\<close>

fun fetched :: "effect list \<Rightarrow> string list" where
  "fetched [] = []"
| "fetched (Fetch url # es) = url # fetched es"
| "fetched (Progress data # es) = fetched es"
| "fetched (Sleep secs # es) = fetched es"

text \<open>
  The links among \<open>links\<close> that are new to \<open>found\<close>, each once, in the order of \<open>links\<close>:
  what the loop over \<^verbatim>\<open>page_links\<close> adds to \<^verbatim>\<open>found_links\<close>.
\<close>

fun fresh_links :: "string list \<Rightarrow> string list \<Rightarrow> string list" where
  "fresh_links [] found = []"
| "fresh_links (link # links) found =
     (if link \<in> set found then fresh_links links found
      else link # fresh_links links (found @ [link]))"

subsection \<open>An example site\<close>

text \<open>
  Four pages of one site, for the concrete instances below. The seed links to \<^verbatim>\<open>b\<close> and
  \<^verbatim>\<open>c\<close>; \<^verbatim>\<open>b\<close> links to \<^verbatim>\<open>d\<close>, to a login page and to another site; \<^verbatim>\<open>c\<close> links back to
  \<^verbatim>\<open>b\<close>. All links are absolute, so that \<^verbatim>\<open>urljoin\<close> returns them as they are, unless
  \<^verbatim>\<open>urlparse\<close> raises on them; the set of links is iterated in the order of insertion.
\<close>

definition example_site :: "(string \<times> string) list" where
  "example_site =
     [(''https://x.com/'', ''<seed>''), (''https://x.com/b'', ''<b>''),
      (''https://x.com/c'', ''<c>''), (''https://x.com/d'', ''<d>'')]"

definition example_links :: "(string \<times> string list) list" where
  "example_links =
     [(''<seed>'', [''https://x.com/b'', ''https://x.com/c'']),
      (''<b>'', [''https://x.com/d'', ''https://x.com/login'', ''https://other.com/about'']),
      (''<c>'', [''https://x.com/b'']),
      (''<d>'', [])]"

definition example_env :: env where
  "example_env =
     \<lparr>browser = (\<lambda>n url. case map_of example_site url of
                            Some html \<Rightarrow> Loaded html | None \<Rightarrow> LoadFailed),
      find_all_a_href = (\<lambda>html. case map_of example_links html of
                            Some hrefs \<Rightarrow> hrefs | None \<Rightarrow> []),
      urljoin = (\<lambda>base href. case urlparse_netloc href of
                                  None \<Rightarrow> None | Some loc \<Rightarrow> Some href),
      netloc = urlparse_netloc,
      set_iter = (\<lambda>links. links)\<rparr>"

text \<open>
  The same site when the page \<^verbatim>\<open>b\<close> does not load and the page \<^verbatim>\<open>c\<close> holds the one anchor
  \<^verbatim>\<open><a href="http://[">\<close>, on which \<^verbatim>\<open>urljoin\<close> raises \<^verbatim>\<open>ValueError\<close>.
\<close>

definition broken_env :: env where
  "broken_env =
     example_env
       \<lparr>browser := (\<lambda>n url. if url = ''https://x.com/b'' then LoadFailed
                            else browser example_env n url),
        find_all_a_href := (\<lambda>html. if html = ''<c>'' then [''http://['']
                            else find_all_a_href example_env html)\<rparr>"

section \<open>Basic facts\<close>

lemma set_add_set [simp]: "set (set_add x xs) = insert x (set xs)"
  by (auto simp: set_add_def)

lemma set_add_distinct [simp]: "distinct xs \<Longrightarrow> distinct (set_add x xs)"
  by (simp add: set_add_def)

lemma set_len_card: "set_len xs = card (set xs)"
  by (simp add: set_len_def length_remdups_card_conv)

lemma set_len_add: "set_len (set_add x xs) = (if x \<in> set xs then set_len xs else Suc (set_len xs))"
  by (simp add: set_len_card insert_absorb)


lemma offer_fields:
  assumes "offer link (s, k) = (s', k')"
  shows "max_pages s' = max_pages s" "delay s' = delay s"
    "same_domain_only s' = same_domain_only s" "visited_urls s' = visited_urls s"
    "scraped_content s' = scraped_content s" "progress_callback s' = progress_callback s"
    "trace s' = trace s"
  using assms by (auto simp: offer_def Let_def split: if_splits)

lemma fold_offer_fields:
  assumes "fold offer links (s, k) = (s', k')"
  shows "max_pages s' = max_pages s \<and> delay s' = delay s
    \<and> same_domain_only s' = same_domain_only s \<and> visited_urls s' = visited_urls s
    \<and> scraped_content s' = scraped_content s \<and> progress_callback s' = progress_callback s
    \<and> trace s' = trace s"
  using assms
proof (induction links arbitrary: s k)
  case Nil
  then show ?case by simp
next
  case (Cons l ls)
  obtain s1 k1 where o: "offer l (s, k) = (s1, k1)" by (cases "offer l (s, k)")
  with Cons.prems have "fold offer ls (s1, k1) = (s', k')" by simp
  from Cons.IH [OF this] offer_fields [OF o] show ?case by simp
qed

lemma update_progress_trace:
  "\<exists>t. s' = s\<lparr>trace := t\<rparr>" if "update_progress msg cur k s = Inr s'"
proof (cases "progress_callback s")
  case True
  with that show ?thesis by (auto simp: update_progress_def split: if_splits)
next
  case False
  with that have "s' = s\<lparr>trace := trace s\<rparr>" by (simp add: update_progress_def)
  then show ?thesis ..
qed

lemma is_valid_url_cong:
  "same_domain_only s = same_domain_only s' \<Longrightarrow> is_valid_url E s = is_valid_url E s'"
  by (intro ext) (simp add: is_valid_url_def)

lemma collect_links_cong:
  "same_domain_only s = same_domain_only s' \<Longrightarrow>
   collect_links E s b d hrefs links = collect_links E s' b d hrefs links"
  by (induction hrefs arbitrary: links)
    (simp_all add: is_valid_url_cong [of s s'] split: option.splits sum.splits)

lemma extract_links_cong:
  "same_domain_only s = same_domain_only s' \<Longrightarrow> extract_links E s = extract_links E s'"
  by (intro ext) (simp add: extract_links_def collect_links_cong [of s s'] cong: sum.case_cong)

lemma offer_trace:
  "offer l (s\<lparr>trace := t\<rparr>, k) = (case offer l (s, k) of (s1, k1) \<Rightarrow> (s1\<lparr>trace := t\<rparr>, k1))"
  by (simp add: offer_def Let_def)

lemma fold_offer_trace:
  "fold offer ls (s\<lparr>trace := t\<rparr>, k) = (case fold offer ls (s, k) of (s1, k1) \<Rightarrow> (s1\<lparr>trace := t\<rparr>, k1))"
proof (induction ls arbitrary: s k)
  case Nil
  show ?case by simp
next
  case (Cons l ls)
  obtain s1 k1 where o: "offer l (s, k) = (s1, k1)" by (cases "offer l (s, k)")
  show ?case using Cons.IH [of s1 k1] by (simp add: offer_trace o)
qed

lemma mark_visited_trace:
  "mark_visited u h (s\<lparr>trace := t\<rparr>) = (mark_visited u h s)\<lparr>trace := t\<rparr>"
  by (simp add: mark_visited_def)

lemma crawl_iter_Inr:
  assumes "crawl_iter E n s = Inr s'" and q: "url_queue s = cur # rest"
  shows "(cur \<in> set (visited_urls s) \<and> s' = s\<lparr>url_queue := rest\<rparr>)
       \<or> (cur \<notin> set (visited_urls s)
           \<and> (scrape_single_page E n cur = None \<or> scrape_single_page E n cur = Some [])
           \<and> (\<exists>t. s' = s\<lparr>url_queue := rest, trace := t\<rparr>))
       \<or> (cur \<notin> set (visited_urls s)
           \<and> (\<exists>html links s5 k t. scrape_single_page E n cur = Some html \<and> html \<noteq> []
                \<and> extract_links E s html cur = Inr links
                \<and> fold offer links (mark_visited cur html (s\<lparr>url_queue := rest\<rparr>), 0) = (s5, k)
                \<and> s' = s5\<lparr>trace := t\<rparr>))"
proof (cases "cur \<in> set (visited_urls s)")
  case True
  with assms show ?thesis by (simp add: crawl_iter_def)
next
  case False
  let ?s1 = "s\<lparr>url_queue := rest\<rparr>"
  from assms False obtain s2 where u2: "update_progress Scraping (Some cur) 0 ?s1 = Inr s2"
    by (auto simp: crawl_iter_def split: sum.splits)
  then obtain t2 where s2: "s2 = ?s1\<lparr>trace := t2\<rparr>" by (auto dest: update_progress_trace)
  let ?s3 = "s2\<lparr>trace := trace s2 @ [Fetch cur]\<rparr>"
  have s3: "?s3 = ?s1\<lparr>trace := t2 @ [Fetch cur]\<rparr>" by (simp add: s2)
  show ?thesis
  proof (cases "scrape_single_page E n cur = None \<or> scrape_single_page E n cur = Some []")
    case True
    with assms False u2 have "update_progress Failed (Some cur) 0 ?s3 = Inr s'"
      by (auto simp: crawl_iter_def)
    then obtain t where "s' = ?s3\<lparr>trace := t\<rparr>" by (auto dest: update_progress_trace)
    with s3 have "s' = s\<lparr>url_queue := rest, trace := t\<rparr>" by simp
    with True False show ?thesis by blast
  next
    case nf: False
    then obtain html where h: "scrape_single_page E n cur = Some html" "html \<noteq> []" by auto
    let ?s4 = "mark_visited cur html ?s3"
    have e4: "extract_links E ?s4 html cur = extract_links E s html cur"
      by (rule fun_cong [OF fun_cong [OF extract_links_cong]]) (simp add: mark_visited_def s2)
    from assms False u2 h obtain links where e: "extract_links E ?s4 html cur = Inr links"
      by (auto simp: crawl_iter_def Let_def split: sum.splits)
    obtain s5 k where f: "fold offer links (?s4, 0) = (s5, k)" by (cases "fold offer links (?s4, 0)")
    from assms False u2 h e f obtain s6 where
      u6: "update_progress (FoundNew k) (Some cur) (length links) s5 = Inr s6"
      and s': "s' = (if 0 < delay s6 then s6\<lparr>trace := trace s6 @ [Sleep (delay s6)]\<rparr> else s6)"
      by (auto simp: crawl_iter_def Let_def split: sum.splits)
    from u6 obtain t6 where s6: "s6 = s5\<lparr>trace := t6\<rparr>" by (auto dest: update_progress_trace)
    obtain s5' k' where f': "fold offer links (mark_visited cur html ?s1, 0) = (s5', k')"
      by (cases "fold offer links (mark_visited cur html ?s1, 0)")
    have "?s4 = (mark_visited cur html ?s1)\<lparr>trace := t2 @ [Fetch cur]\<rparr>"
      by (simp add: s3 mark_visited_trace)
    with f f' have s5: "s5 = s5'\<lparr>trace := t2 @ [Fetch cur]\<rparr>" "k = k'"
      by (simp_all add: fold_offer_trace)
    have "\<exists>t. s' = s5'\<lparr>trace := t\<rparr>" using s' s6 s5 by (cases "0 < delay s6") auto
    with f' e e4 h False show ?thesis by auto
  qed
qed

lemma crawl_iter_config:
  assumes "crawl_iter E n s = Inr s'"
  shows "max_pages s' = max_pages s \<and> delay s' = delay s
    \<and> same_domain_only s' = same_domain_only s \<and> progress_callback s' = progress_callback s"
proof (cases "url_queue s")
  case Nil
  with assms show ?thesis by (simp add: crawl_iter_def)
next
  case (Cons cur rest)
  from crawl_iter_Inr [OF assms Cons] show ?thesis
    by (auto dest!: fold_offer_fields simp: mark_visited_def)
qed

lemma crawl_iter_progress:
  assumes "crawl_iter E n s = Inr s'" and "url_queue s \<noteq> []"
  shows "set_len (visited_urls s') = Suc (set_len (visited_urls s))
       \<or> (visited_urls s' = visited_urls s \<and> length (url_queue s') < length (url_queue s))"
proof -
  from assms(2) obtain cur rest where q: "url_queue s = cur # rest" by (cases "url_queue s") auto
  from crawl_iter_Inr [OF assms(1) q] show ?thesis
    by (auto dest!: fold_offer_fields simp: mark_visited_def set_len_add q)
qed

termination crawl_loop
proof (relation "measures [\<lambda>(E, n, s). nat (max_pages s - int (set_len (visited_urls s))),
                           \<lambda>(E, n, s). length (url_queue s)]")
  show "wf (measures [\<lambda>(E, n, s). nat (max_pages s - int (set_len (visited_urls s))),
                      \<lambda>(E, n, s). length (url_queue s)])"
    by simp
next
  fix E n self s'
  assume c: "loop_cond self" and i: "crawl_iter E n self = Inr s'"
  from c have q: "url_queue self \<noteq> []" and lt: "int (set_len (visited_urls self)) < max_pages self"
    by (simp_all add: loop_cond_def)
  from crawl_iter_config [OF i] have m: "max_pages s' = max_pages self" by simp
  from crawl_iter_progress [OF i q] m lt
  show "((E, Suc n, s'), (E, n, self))
        \<in> measures [\<lambda>(E, n, s). nat (max_pages s - int (set_len (visited_urls s))),
                     \<lambda>(E, n, s). length (url_queue s)]"
    by auto
qed

declare crawl_loop.simps [simp del]

section \<open>The URL filter\<close>

lemmas string_defs = lower_def lower_char_def ascii_uppercase_def ascii_lowercase_def digits_def
  startswith_def endswith_def contains_def is_alpha_def is_scheme_char_def

lemma netloc_x_about: "urlparse_netloc ''https://x.com/about'' = Some ''x.com''"
  by (simp add: urlparse_netloc_def strip_scheme_def string_defs)

lemma netloc_other_about: "urlparse_netloc ''https://other.com/about'' = Some ''other.com''"
  by (simp add: urlparse_netloc_def strip_scheme_def string_defs)

lemma netloc_bracket: "urlparse_netloc ''http://['' = None"
  by (simp add: urlparse_netloc_def strip_scheme_def string_defs)

lemma valid_login:
  "is_valid_url E self ''https://x.com/login'' b = Inr False"
  by (simp add: is_valid_url_def string_defs
      EXCLUDED_EXTENSIONS_def EXCLUDED_URL_KEYWORDS_def suffix_Cons sublist_Cons_right)

lemma valid_report_pdf:
  "is_valid_url E self ''https://x.com/report.pdf'' b = Inr False"
  by (simp add: is_valid_url_def string_defs
      EXCLUDED_EXTENSIONS_def EXCLUDED_URL_KEYWORDS_def suffix_Cons sublist_Cons_right)

lemma valid_x_about:
  "is_valid_url E self ''https://x.com/about'' b
     = (if same_domain_only self
        then (case netloc E ''https://x.com/about'' of
                None \<Rightarrow> Inl ValueError | Some domain \<Rightarrow> Inr (domain = b))
        else Inr True)"
  by (simp add: is_valid_url_def string_defs get_domain_def
      EXCLUDED_EXTENSIONS_def EXCLUDED_URL_KEYWORDS_def suffix_Cons sublist_Cons_right
      split: option.splits)

lemma valid_other_about:
  "is_valid_url E self ''https://other.com/about'' b
     = (if same_domain_only self
        then (case netloc E ''https://other.com/about'' of
                None \<Rightarrow> Inl ValueError | Some domain \<Rightarrow> Inr (domain = b))
        else Inr True)"
  by (simp add: is_valid_url_def string_defs get_domain_def
      EXCLUDED_EXTENSIONS_def EXCLUDED_URL_KEYWORDS_def suffix_Cons sublist_Cons_right
      split: option.splits)

text \<open>
  C5. \<open>is_valid_url\<close> reads nothing but its two arguments, the flag \<open>same_domain_only\<close>
  of the crawler and the library function \<open>netloc\<close>: two crawlers that agree on the flag
  and two environments that agree on \<open>netloc\<close> give the same answer, whatever else they
  hold. With the flag set, base domain \<^verbatim>\<open>x.com\<close> and \<^verbatim>\<open>urlparse\<close> for \<open>netloc\<close>, it returns
  (raising nothing) false for \<^verbatim>\<open>https://x.com/login\<close>, true for \<^verbatim>\<open>https://x.com/about\<close>,
  false for \<^verbatim>\<open>https://other.com/about\<close> and false for \<^verbatim>\<open>https://x.com/report.pdf\<close>.
\<close>

theorem is_valid_url_pure_and_examples:
  "is_valid_url E self url base_domain
     = is_valid_url (E'\<lparr>netloc := netloc E\<rparr>)
         (self'\<lparr>same_domain_only := same_domain_only self\<rparr>) url base_domain
   \<and> is_valid_url (E\<lparr>netloc := urlparse_netloc\<rparr>) (self\<lparr>same_domain_only := True\<rparr>)
         ''https://x.com/login'' ''x.com'' = Inr False
   \<and> is_valid_url (E\<lparr>netloc := urlparse_netloc\<rparr>) (self\<lparr>same_domain_only := True\<rparr>)
         ''https://x.com/about'' ''x.com'' = Inr True
   \<and> is_valid_url (E\<lparr>netloc := urlparse_netloc\<rparr>) (self\<lparr>same_domain_only := True\<rparr>)
         ''https://other.com/about'' ''x.com'' = Inr False
   \<and> is_valid_url (E\<lparr>netloc := urlparse_netloc\<rparr>) (self\<lparr>same_domain_only := True\<rparr>)
         ''https://x.com/report.pdf'' ''x.com'' = Inr False"
proof -
  have pure: "is_valid_url E self url base_domain
     = is_valid_url (E'\<lparr>netloc := netloc E\<rparr>)
         (self'\<lparr>same_domain_only := same_domain_only self\<rparr>) url base_domain"
    by (simp add: is_valid_url_def get_domain_def Let_def)
  show ?thesis
    using pure by (simp add: valid_login valid_report_pdf valid_x_about valid_other_about
        netloc_x_about netloc_other_about)
qed

section \<open>Iterations and their points\<close>

lemma offer_points_last:
  "fold offer links (s, k) = (s', k') \<Longrightarrow> s' = last (s # offer_points links s)"
proof (induction links arbitrary: s k)
  case Nil
  then show ?case by simp
next
  case (Cons l ls)
  obtain s1 k1 where o: "offer l (s, k) = (s1, k1)" by (cases "offer l (s, k)")
  with Cons.prems have f: "fold offer ls (s1, k1) = (s', k')" by simp
  from Cons.IH [OF f] have s': "s' = last (s1 # offer_points ls s1)" .
  from o show ?case unfolding s'
    by (auto simp: offer_def Let_def split: if_splits)
qed

lemma iter_points_last:
  assumes "crawl_iter E n s = Inr s'" and "url_queue s \<noteq> []"
  shows "\<exists>t. s' = (last (iter_points E n s))\<lparr>trace := t\<rparr>"
proof -
  from assms(2) obtain cur rest where q: "url_queue s = cur # rest" by (cases "url_queue s") auto
  from crawl_iter_Inr [OF assms(1) q]
  consider (skip) "cur \<in> set (visited_urls s)" "s' = s\<lparr>url_queue := rest\<rparr>"
    | (failed) t where "cur \<notin> set (visited_urls s)"
        "scrape_single_page E n cur = None \<or> scrape_single_page E n cur = Some []"
        "s' = s\<lparr>url_queue := rest, trace := t\<rparr>"
    | (ok) html links s5 k t where "cur \<notin> set (visited_urls s)"
        "scrape_single_page E n cur = Some html" "html \<noteq> []"
        "extract_links E s html cur = Inr links"
        "fold offer links (mark_visited cur html (s\<lparr>url_queue := rest\<rparr>), 0) = (s5, k)"
        "s' = s5\<lparr>trace := t\<rparr>"
    by blast
  then show ?thesis
  proof cases
    case skip
    then have "s' = (last (iter_points E n s))\<lparr>trace := trace s\<rparr>"
      by (simp add: iter_points_def q)
    then show ?thesis ..
  next
    case failed
    then have "s' = (last (iter_points E n s))\<lparr>trace := t\<rparr>"
      by (auto simp: iter_points_def q)
    then show ?thesis ..
  next
    case ok
    let ?s3 = "mark_visited cur html (s\<lparr>url_queue := rest\<rparr>)"
    have l: "extract_links E ?s3 html cur = extract_links E s html cur"
      by (rule fun_cong [OF fun_cong [OF extract_links_cong]]) (simp add: mark_visited_def)
    from offer_points_last [OF ok(5)]
    have "s5 = last (?s3 # offer_points links ?s3)" .
    with ok l have "s' = (last (iter_points E n s))\<lparr>trace := t\<rparr>"
      by (simp add: iter_points_def q Let_def mark_visited_def)
    then show ?thesis ..
  qed
qed

text \<open>The crawler that the loop returns stands at the head of the loop.\<close>

lemma crawl_loop_reaches:
  assumes "crawl_loop E k s = Inr s2" and "(k, s) \<in> loop_states E s1"
  shows "\<exists>n. (n, s2) \<in> loop_states E s1"
  using assms
proof (induction E k s rule: crawl_loop.induct)
  case (1 E n s)
  show ?case
  proof (cases "loop_cond s")
    case True
    with "1.prems"(1) obtain s' where i: "crawl_iter E n s = Inr s'"
      and r: "crawl_loop E (Suc n) s' = Inr s2"
      by (subst (asm) crawl_loop.simps) (auto split: sum.splits)
    from "1.prems"(2) True i have "(Suc n, s') \<in> loop_states E s1" by (rule loop_states.iter)
    from "1.IH" [OF True i r this] show ?thesis .
  next
    case False
    with "1.prems" show ?thesis by (subst (asm) crawl_loop.simps) auto
  qed
qed


lemma seed_Inr:
  assumes "seed E start_url self = Inr s0"
  shows "s0 = (enqueue_start start_url self)\<lparr>found_links := set_add start_url (found_links self)\<rparr>"
    and "\<exists>domain. netloc E start_url = Some domain"
  using assms by (auto simp: seed_def enqueue_start_def get_domain_def Let_def split: option.splits)

lemma crawl_begin_Inr:
  assumes "crawl_begin E start_url self = Inr s1"
  shows "\<exists>s0. seed E start_url self = Inr s0
           \<and> update_progress Starting (Some start_url) 0 s0 = Inr s1"
  using assms by (auto simp: crawl_begin_def split: sum.splits)

text \<open>
  A property that does not read the trace holds at every head of the loop of a crawl if it
  holds once the start URL is seeded and every iteration keeps it at each of its points.
\<close>

lemma crawl_heads_induct:
  assumes b: "crawl_begin E start_url self = Inr s1"
    and l: "(n, s) \<in> loop_states E s1"
    and init: "P ((enqueue_start start_url self)
                   \<lparr>found_links := set_add start_url (found_links self)\<rparr>)"
    and step: "\<And>n s q. P s \<Longrightarrow> loop_cond s \<Longrightarrow> q \<in> set (iter_points E n s) \<Longrightarrow> P q"
    and tr: "\<And>s t. P s \<Longrightarrow> P (s\<lparr>trace := t\<rparr>)"
  shows "P s"
  using l
proof (induction rule: loop_states.induct)
  case start
  from crawl_begin_Inr [OF b] obtain s0 where s0: "seed E start_url self = Inr s0"
    and u: "update_progress Starting (Some start_url) 0 s0 = Inr s1" by blast
  from seed_Inr(1) [OF s0] init have "P s0" by simp
  with update_progress_trace [OF u] tr show ?case by auto
next
  case (iter n s s')
  from iter.hyps(2) have q: "url_queue s \<noteq> []" by (simp add: loop_cond_def)
  then have ne: "iter_points E n s \<noteq> []"
    by (cases "url_queue s") (auto simp: iter_points_def Let_def split: option.splits sum.splits)
  from iter_points_last [OF iter.hyps(3) q] obtain t
    where s': "s' = (last (iter_points E n s))\<lparr>trace := t\<rparr>" ..
  from ne have "last (iter_points E n s) \<in> set (iter_points E n s)" by simp
  from step [OF iter.IH iter.hyps(2) this] show ?case unfolding s' by (rule tr)
qed

text \<open>
  Such a property holds at every point of the crawl but, it may be, the first: the
  object that has the start URL in its queue and not yet among its found links.
\<close>

lemma crawl_points_seeded_induct:
  assumes p: "p \<in> crawl_points E start_url self"
    and init: "P ((enqueue_start start_url self)
                   \<lparr>found_links := set_add start_url (found_links self)\<rparr>)"
    and step: "\<And>n s q. P s \<Longrightarrow> loop_cond s \<Longrightarrow> q \<in> set (iter_points E n s) \<Longrightarrow> P q"
    and tr: "\<And>s t. P s \<Longrightarrow> P (s\<lparr>trace := t\<rparr>)"
  shows "p = enqueue_start start_url self \<or> P p"
  using p
proof cases
  case queued
  then show ?thesis by simp
next
  case seeded
  from seed_Inr(1) [OF seeded] init show ?thesis by simp
next
  case (head s1 n)
  from crawl_heads_induct [of E start_url self s1 n p P, OF head init step tr]
  show ?thesis by simp
next
  case (inside s1 n s)
  from crawl_heads_induct [of E start_url self s1 n s P, OF inside(1,2) init step tr]
  have "P s" by simp
  from step [OF this inside(3,4)] show ?thesis ..
next
  case (final content)
  then obtain s1 s2 where u: "crawl_begin E start_url self = Inr s1"
    and l: "crawl_loop E 0 s1 = Inr s2"
    and u3: "update_progress (Completed (set_len (visited_urls s2)) (set_len (found_links s2)))
               None 0 s2 = Inr p"
    by (auto simp: crawl_website_def split: sum.splits)
  from crawl_loop_reaches [OF l loop_states.start] obtain n where "(n, s2) \<in> loop_states E s1" ..
  from crawl_heads_induct [of E start_url self s1 n s2 P, OF u this init step tr]
  have "P s2" by simp
  with update_progress_trace [OF u3] tr show ?thesis by auto
qed

text \<open>It holds at every point if it holds at the first one as well.\<close>

lemma crawl_points_induct:
  assumes p: "p \<in> crawl_points E start_url self"
    and queued: "P (enqueue_start start_url self)"
    and init: "P ((enqueue_start start_url self)
                   \<lparr>found_links := set_add start_url (found_links self)\<rparr>)"
    and step: "\<And>n s q. P s \<Longrightarrow> loop_cond s \<Longrightarrow> q \<in> set (iter_points E n s) \<Longrightarrow> P q"
    and tr: "\<And>s t. P s \<Longrightarrow> P (s\<lparr>trace := t\<rparr>)"
  shows "P p"
proof -
  from p init have "p = enqueue_start start_url self \<or> P p"
  proof (rule crawl_points_seeded_induct)
    show "P q" if "P s" "loop_cond s" "q \<in> set (iter_points E n s)" for n s q
      using that by (rule step)
    show "P (s\<lparr>trace := t\<rparr>)" if "P s" for s t
      using that by (rule tr)
  qed
  with queued show ?thesis by auto
qed

section \<open>Visited, queued and discovered URLs\<close>

definition discovered_inv :: "crawler \<Rightarrow> bool" where
  "discovered_inv s =
     (set (visited_urls s) \<subseteq> set (found_links s) \<and> set (url_queue s) \<subseteq> set (found_links s))"

lemma offer_points_discovered:
  "discovered_inv s \<Longrightarrow> q \<in> set (offer_points links s) \<Longrightarrow> discovered_inv q"
proof (induction links arbitrary: s)
  case Nil
  then show ?case by simp
next
  case (Cons l ls)
  let ?s1 = "s\<lparr>found_links := set_add l (found_links s)\<rparr>"
  let ?s2 = "?s1\<lparr>url_queue := url_queue ?s1 @ [l]\<rparr>"
  from Cons.prems(1) have d1: "discovered_inv ?s1" and d2: "discovered_inv ?s2"
    by (auto simp: discovered_inv_def)
  show ?case
  proof (cases "l \<in> set (found_links s)")
    case True
    with Cons show ?thesis by simp
  next
    case nf: False
    show ?thesis
    proof (cases "l \<notin> set (visited_urls ?s1) \<and> l \<notin> set (url_queue ?s1)")
      case True
      with nf Cons.prems(2) have "q = ?s1 \<or> q = ?s2 \<or> q \<in> set (offer_points ls ?s2)"
        by (simp add: Let_def)
      with d1 d2 Cons.IH [OF d2] show ?thesis by blast
    next
      case False
      with nf Cons.prems(2) have "q = ?s1 \<or> q \<in> set (offer_points ls ?s1)"
        by (auto simp: Let_def)
      with d1 Cons.IH [OF d1] show ?thesis by blast
    qed
  qed
qed

lemma iter_points_discovered:
  assumes "discovered_inv s" and "q \<in> set (iter_points E n s)"
  shows "discovered_inv q"
proof (cases "url_queue s")
  case Nil
  with assms(2) show ?thesis by (simp add: iter_points_def)
next
  case (Cons cur rest)
  let ?s1 = "s\<lparr>url_queue := rest\<rparr>"
  from assms(1) Cons have d1: "discovered_inv ?s1" and cur: "cur \<in> set (found_links s)"
    by (auto simp: discovered_inv_def)
  show ?thesis
  proof (cases "cur \<in> set (visited_urls s) \<or> scrape_single_page E n cur = None
      \<or> scrape_single_page E n cur = Some []")
    case True
    with assms(2) Cons have "q = ?s1" by (auto simp: iter_points_def Let_def split: if_splits)
    with d1 show ?thesis by simp
  next
    case False
    then obtain html where h: "scrape_single_page E n cur = Some html" "html \<noteq> []"
      and nv: "cur \<notin> set (visited_urls s)" by auto
    let ?s2 = "?s1\<lparr>visited_urls := set_add cur (visited_urls ?s1)\<rparr>"
    let ?s3 = "?s2\<lparr>scraped_content := dict_set cur html (scraped_content ?s2)\<rparr>"
    from d1 cur have d2: "discovered_inv ?s2" and d3: "discovered_inv ?s3"
      by (auto simp: discovered_inv_def)
    from assms(2) Cons h nv
    have "q = ?s1 \<or> q = ?s2 \<or> q = ?s3 \<or> (\<exists>links. q \<in> set (offer_points links ?s3))"
      by (auto simp: iter_points_def Let_def split: sum.splits)
    with d1 d2 d3 offer_points_discovered [OF d3] show ?thesis by blast
  qed
qed


text \<open>
  At every point of a crawl but the first, every visited URL and every URL in the queue
  is among the found links, on any crawler whose visited URLs are among its found links.
\<close>

lemma crawl_points_discovered:
  assumes "set (visited_urls self) \<subseteq> set (found_links self)"
    and "p \<in> crawl_points E start_url self"
  shows "p = enqueue_start start_url self \<or> discovered_inv p"
  using assms(2)
proof (rule crawl_points_seeded_induct)
  show "discovered_inv ((enqueue_start start_url self)
          \<lparr>found_links := set_add start_url (found_links self)\<rparr>)"
    using assms(1) by (auto simp: discovered_inv_def enqueue_start_def)
next
  fix n s q
  assume "discovered_inv s" and "q \<in> set (iter_points E n s)"
  then show "discovered_inv q" by (rule iter_points_discovered)
next
  fix s t
  assume "discovered_inv s"
  then show "discovered_inv (s\<lparr>trace := t\<rparr>)" by (simp add: discovered_inv_def)
qed

lemma loop_states_discovered:
  assumes "set (visited_urls self) \<subseteq> set (found_links self)"
    and "crawl_begin E start_url self = Inr s1" and "(n, s) \<in> loop_states E s1"
  shows "discovered_inv s"
  using assms(2,3)
proof (rule crawl_heads_induct)
  show "discovered_inv ((enqueue_start start_url self)
          \<lparr>found_links := set_add start_url (found_links self)\<rparr>)"
    using assms(1) by (auto simp: discovered_inv_def enqueue_start_def)
next
  fix n s q
  assume "discovered_inv s" and "q \<in> set (iter_points E n s)"
  then show "discovered_inv q" by (rule iter_points_discovered)
next
  fix s t
  assume "discovered_inv s"
  then show "discovered_inv (s\<lparr>trace := t\<rparr>)" by (simp add: discovered_inv_def)
qed

section \<open>The example site, evaluated\<close>

lemmas filter_defs = is_valid_url_def get_domain_def EXCLUDED_EXTENSIONS_def
  EXCLUDED_URL_KEYWORDS_def suffix_Cons sublist_Cons_right

lemma example_netloc:
  "urlparse_netloc ''https://x.com/'' = Some ''x.com''"
  "urlparse_netloc ''https://x.com/b'' = Some ''x.com''"
  "urlparse_netloc ''https://x.com/c'' = Some ''x.com''"
  "urlparse_netloc ''https://x.com/d'' = Some ''x.com''"
  "urlparse_netloc ''https://x.com/login'' = Some ''x.com''"
  by (simp_all add: urlparse_netloc_def strip_scheme_def string_defs)

lemma example_valid:
  "is_valid_url E self ''https://x.com/b'' b
     = (if same_domain_only self
        then (case netloc E ''https://x.com/b'' of
                None \<Rightarrow> Inl ValueError | Some domain \<Rightarrow> Inr (domain = b))
        else Inr True)"
  "is_valid_url E self ''https://x.com/c'' b
     = (if same_domain_only self
        then (case netloc E ''https://x.com/c'' of
                None \<Rightarrow> Inl ValueError | Some domain \<Rightarrow> Inr (domain = b))
        else Inr True)"
  "is_valid_url E self ''https://x.com/d'' b
     = (if same_domain_only self
        then (case netloc E ''https://x.com/d'' of
                None \<Rightarrow> Inl ValueError | Some domain \<Rightarrow> Inr (domain = b))
        else Inr True)"
  by (simp_all add: filter_defs string_defs split: option.splits)

lemma example_extract:
  assumes "same_domain_only self"
  shows "extract_links example_env self ''<seed>'' ''https://x.com/''
           = Inr [''https://x.com/b'', ''https://x.com/c'']"
    and "extract_links example_env self ''<b>'' ''https://x.com/b'' = Inr [''https://x.com/d'']"
    and "extract_links example_env self ''<c>'' ''https://x.com/c'' = Inr [''https://x.com/b'']"
    and "extract_links example_env self ''<d>'' ''https://x.com/d'' = Inr []"
  using assms
  by (simp_all add: extract_links_def example_env_def example_links_def get_domain_def
      example_netloc netloc_other_about example_valid valid_login valid_other_about set_add_def)

lemma example_fetch:
  "scrape_single_page example_env n ''https://x.com/'' = Some ''<seed>''"
  "scrape_single_page example_env n ''https://x.com/b'' = Some ''<b>''"
  "scrape_single_page example_env n ''https://x.com/c'' = Some ''<c>''"
  "scrape_single_page example_env n ''https://x.com/d'' = Some ''<d>''"
  by (simp_all add: scrape_single_page_def scrape_website_playwright_def example_env_def
      example_site_def)

lemma example_seed_domain:
  "get_domain example_env ''https://x.com/'' = Inr ''x.com''"
  "get_domain broken_env ''https://x.com/'' = Inr ''x.com''"
  "get_domain example_env ''http://['' = Inl ValueError"
  by (simp_all add: get_domain_def example_env_def broken_env_def example_netloc netloc_bracket)

lemmas crawl_defs = crawl_website_def crawl_begin_def seed_def enqueue_start_def init_def
  update_progress_def progress_data_def loop_cond_def
  crawl_iter_def mark_visited_def offer_def set_add_def set_len_def Let_def

lemma example_crawl:
  "crawl_website example_env ''https://x.com/'' (init 10 0 True False)
     = Inr ([(''https://x.com/'', ''<seed>''), (''https://x.com/b'', ''<b>''),
             (''https://x.com/c'', ''<c>''), (''https://x.com/d'', ''<d>'')],
            \<lparr>max_pages = 10, delay = 0, same_domain_only = True,
               visited_urls = [''https://x.com/'', ''https://x.com/b'', ''https://x.com/c'',
                               ''https://x.com/d''],
               scraped_content = [(''https://x.com/'', ''<seed>''), (''https://x.com/b'', ''<b>''),
                                  (''https://x.com/c'', ''<c>''), (''https://x.com/d'', ''<d>'')],
               url_queue = [],
               found_links = [''https://x.com/'', ''https://x.com/b'', ''https://x.com/c'',
                              ''https://x.com/d''],
               progress_callback = False,
               trace = [Fetch ''https://x.com/'', Fetch ''https://x.com/b'',
                        Fetch ''https://x.com/c'', Fetch ''https://x.com/d'']\<rparr>)"
  by (simp add: crawl_defs crawl_loop.simps example_fetch example_extract example_seed_domain)




section \<open>The page budget\<close>

definition budget_inv :: "crawler \<Rightarrow> bool" where
  "budget_inv s =
     (int (set_len (visited_urls s)) \<le> max_pages s
      \<and> distinct (map fst (scraped_content s))
      \<and> set (map fst (scraped_content s)) \<subseteq> set (visited_urls s))"

lemma dict_set_keys: "map fst (dict_set k v d) = set_add k (map fst d)"
  by (induction d) (auto simp: set_add_def)

lemma offer_points_fields:
  "q \<in> set (offer_points links s) \<Longrightarrow>
     max_pages q = max_pages s \<and> delay q = delay s \<and> same_domain_only q = same_domain_only s
     \<and> visited_urls q = visited_urls s \<and> scraped_content q = scraped_content s
     \<and> progress_callback q = progress_callback s \<and> trace q = trace s"
proof (induction links arbitrary: s)
  case Nil
  then show ?case by simp
next
  case (Cons l ls)
  let ?s1 = "s\<lparr>found_links := set_add l (found_links s)\<rparr>"
  let ?s2 = "?s1\<lparr>url_queue := url_queue ?s1 @ [l]\<rparr>"
  from Cons.prems
  have "q \<in> set (offer_points ls s) \<or> q = ?s1 \<or> q \<in> set (offer_points ls ?s1)
      \<or> q = ?s2 \<or> q \<in> set (offer_points ls ?s2)"
    by (auto simp: Let_def split: if_splits)
  then show ?case using Cons.IH [of s] Cons.IH [of ?s1] Cons.IH [of ?s2] by auto
qed

lemma iter_points_budget:
  assumes "budget_inv s" and "loop_cond s" and "q \<in> set (iter_points E n s)"
  shows "budget_inv q \<and> max_pages q = max_pages s"
proof (cases "url_queue s")
  case Nil
  with assms(3) show ?thesis by (simp add: iter_points_def)
next
  case (Cons cur rest)
  let ?s1 = "s\<lparr>url_queue := rest\<rparr>"
  from assms(1) have b1: "budget_inv ?s1" by (simp add: budget_inv_def)
  show ?thesis
  proof (cases "cur \<in> set (visited_urls s) \<or> scrape_single_page E n cur = None
      \<or> scrape_single_page E n cur = Some []")
    case True
    with assms(3) Cons have "q = ?s1" by (auto simp: iter_points_def Let_def split: if_splits)
    with b1 show ?thesis by simp
  next
    case False
    then obtain html where h: "scrape_single_page E n cur = Some html" "html \<noteq> []"
      and nv: "cur \<notin> set (visited_urls s)" by auto
    let ?s2 = "?s1\<lparr>visited_urls := set_add cur (visited_urls ?s1)\<rparr>"
    let ?s3 = "?s2\<lparr>scraped_content := dict_set cur html (scraped_content ?s2)\<rparr>"
    from assms(2) have lt: "int (set_len (visited_urls s)) < max_pages s"
      by (simp add: loop_cond_def)
    from assms(1) lt nv have b2: "budget_inv ?s2"
      by (auto simp: budget_inv_def set_len_add)
    from b2 have b3: "budget_inv ?s3"
      by (auto simp: budget_inv_def dict_set_keys)
    from assms(3) Cons h nv
    have "q = ?s1 \<or> q = ?s2 \<or> q = ?s3 \<or> (\<exists>links. q \<in> set (offer_points links ?s3))"
      by (auto simp: iter_points_def Let_def split: sum.splits)
    moreover have "budget_inv q \<and> max_pages q = max_pages s"
      if "q \<in> set (offer_points links ?s3)" for links
      using offer_points_fields [OF that] b3 by (simp add: budget_inv_def)
    ultimately show ?thesis using b1 b2 b3 by auto
  qed
qed

lemma crawl_points_budget:
  assumes "budget_inv self" and "p \<in> crawl_points E start_url self"
  shows "budget_inv p \<and> max_pages p = max_pages self"
  using assms(2)
proof (rule crawl_points_induct)
  show "budget_inv (enqueue_start start_url self)
      \<and> max_pages (enqueue_start start_url self) = max_pages self"
    using assms(1) by (simp add: budget_inv_def enqueue_start_def)
next
  show "budget_inv ((enqueue_start start_url self)
          \<lparr>found_links := set_add start_url (found_links self)\<rparr>)
      \<and> max_pages ((enqueue_start start_url self)
          \<lparr>found_links := set_add start_url (found_links self)\<rparr>) = max_pages self"
    using assms(1) by (simp add: budget_inv_def enqueue_start_def)
next
  fix n s q
  assume "budget_inv s \<and> max_pages s = max_pages self" and "loop_cond s"
    and "q \<in> set (iter_points E n s)"
  then show "budget_inv q \<and> max_pages q = max_pages self"
    using iter_points_budget [of s q E n] by simp
next
  fix s t
  assume "budget_inv s \<and> max_pages s = max_pages self"
  then show "budget_inv (s\<lparr>trace := t\<rparr>) \<and> max_pages (s\<lparr>trace := t\<rparr>) = max_pages self"
    by (simp add: budget_inv_def)
qed

lemma budget_inv_length:
  assumes "budget_inv s"
  shows "int (length (scraped_content s)) \<le> max_pages s"
proof -
  from assms have d: "distinct (map fst (scraped_content s))"
    and sub: "set (map fst (scraped_content s)) \<subseteq> set (visited_urls s)"
    and le: "int (set_len (visited_urls s)) \<le> max_pages s"
    by (simp_all add: budget_inv_def)
  have "length (scraped_content s) = card (set (map fst (scraped_content s)))"
    using distinct_card [OF d] by simp
  also have "\<dots> \<le> card (set (visited_urls s))" using sub by (intro card_mono) simp_all
  finally show ?thesis using le by (simp add: set_len_card)
qed

text \<open>
  C1. In a crawl run on a new crawler with \<^verbatim>\<open>max_pages = N\<close>, for \<open>N\<close> not negative, at
  every point the number of visited URLs and the number of entries of \<^verbatim>\<open>scraped_content\<close>
  are at most \<open>N\<close>, whatever the fetches return; so is the number of entries of the dict
  that \<^verbatim>\<open>crawl_website\<close> returns.
\<close>

theorem page_budget:
  assumes "0 \<le> N"
  shows "(\<forall>p \<in> crawl_points E start_url (init N d sdo cb).
            int (set_len (visited_urls p)) \<le> N \<and> int (length (scraped_content p)) \<le> N)
       \<and> (\<forall>content s'. crawl_website E start_url (init N d sdo cb) = Inr (content, s')
            \<longrightarrow> int (length content) \<le> N)"
proof -
  have b0: "budget_inv (init N d sdo cb)" using assms by (simp add: budget_inv_def init_def set_len_def)
  have m0: "max_pages (init N d sdo cb) = N" by (simp add: init_def)
  have pts: "int (set_len (visited_urls p)) \<le> N \<and> int (length (scraped_content p)) \<le> N"
    if "p \<in> crawl_points E start_url (init N d sdo cb)" for p
    using crawl_points_budget [OF b0 that] budget_inv_length [of p] m0
    by (simp add: budget_inv_def)
  have "int (length content) \<le> N"
    if c: "crawl_website E start_url (init N d sdo cb) = Inr (content, s')" for content s'
  proof -
    from c have "s' \<in> crawl_points E start_url (init N d sdo cb)" by (rule crawl_points.final)
    from pts [OF this] have "int (length (scraped_content s')) \<le> N" by simp
    moreover from c have "content = scraped_content s'"
      by (auto simp: crawl_website_def split: sum.splits)
    ultimately show ?thesis by simp
  qed
  with pts show ?thesis by blast
qed

lemma example_crawl_budget:
  "crawl_website example_env ''https://x.com/'' (init 2 2 True False)
     = Inr ([(''https://x.com/'', ''<seed>''), (''https://x.com/b'', ''<b>'')],
            \<lparr>max_pages = 2, delay = 2, same_domain_only = True,
               visited_urls = [''https://x.com/'', ''https://x.com/b''],
               scraped_content = [(''https://x.com/'', ''<seed>''), (''https://x.com/b'', ''<b>'')],
               url_queue = [''https://x.com/c'', ''https://x.com/d''],
               found_links = [''https://x.com/'', ''https://x.com/b'', ''https://x.com/c'',
                              ''https://x.com/d''],
               progress_callback = False,
               trace = [Fetch ''https://x.com/'', Sleep 2, Fetch ''https://x.com/b'', Sleep 2]\<rparr>)"
  by (simp add: crawl_defs crawl_loop.simps example_fetch example_extract example_seed_domain)

theorem page_budget_witness:
  "(0::int) \<le> 2
   \<and> (\<exists>content s'. crawl_website example_env ''https://x.com/'' (init 2 2 True False)
          = Inr (content, s')
        \<and> length content = 2 \<and> int (length content) \<le> 2
        \<and> int (set_len (visited_urls s')) \<le> 2 \<and> url_queue s' \<noteq> [])"
proof -
  have n: "(0::int) \<le> 2" by simp
  note b = page_budget [OF n, of example_env "''https://x.com/''" 2 True False]
  note c = example_crawl_budget
  from c have "snd (projr (crawl_website example_env ''https://x.com/'' (init 2 2 True False)))
      \<in> crawl_points example_env ''https://x.com/'' (init 2 2 True False)"
    by (intro crawl_points.final [where content = "[(''https://x.com/'', ''<seed>''), (''https://x.com/b'', ''<b>'')]"]) simp
  with b c show ?thesis by (auto simp: set_len_def)
qed

section \<open>Offering a link\<close>

lemma offer_known: "link \<in> set (found_links s) \<Longrightarrow> offer link (s, k) = (s, k)"
  by (simp add: offer_def)

lemma offer_found: "link \<in> set (found_links (fst (offer link (s, k))))"
  by (simp add: offer_def Let_def)

lemma offer_queue_distinct:
  "distinct (url_queue s) \<Longrightarrow> distinct (url_queue (fst (offer link (s, k))))"
  by (simp add: offer_def Let_def)

lemma offer_points_queue_distinct:
  "distinct (url_queue s) \<Longrightarrow> q \<in> set (offer_points links s) \<Longrightarrow> distinct (url_queue q)"
proof (induction links arbitrary: s)
  case Nil
  then show ?case by simp
next
  case (Cons l ls)
  let ?s1 = "s\<lparr>found_links := set_add l (found_links s)\<rparr>"
  let ?s2 = "?s1\<lparr>url_queue := url_queue ?s1 @ [l]\<rparr>"
  from Cons.prems(2)
  have "q \<in> set (offer_points ls s) \<or> q = ?s1 \<or> q \<in> set (offer_points ls ?s1)
      \<or> (l \<notin> set (url_queue s) \<and> (q = ?s2 \<or> q \<in> set (offer_points ls ?s2)))"
    by (auto simp: Let_def split: if_splits)
  then show ?case
    using Cons.prems(1) Cons.IH [of s] Cons.IH [of ?s1] Cons.IH [of ?s2] by auto
qed

lemma iter_points_queue_distinct:
  assumes "distinct (url_queue s)" and "q \<in> set (iter_points E n s)"
  shows "distinct (url_queue q)"
proof (cases "url_queue s")
  case Nil
  with assms(2) show ?thesis by (simp add: iter_points_def)
next
  case (Cons cur rest)
  with assms(1) have d: "distinct rest" by simp
  from assms(2) Cons
  have "url_queue q = rest
      \<or> (\<exists>links s3. url_queue s3 = rest \<and> q \<in> set (offer_points links s3))"
    by (auto simp: iter_points_def Let_def split: if_splits option.splits sum.splits)
  with d show ?thesis by (auto dest: offer_points_queue_distinct [rotated])
qed

text \<open>
  C8. Offering a link (the body of the loop over \<^verbatim>\<open>page_links\<close>) that is already among the
  discovered ones changes neither the crawler nor the count of new links. After a link
  has been offered once it is discovered, so offering it again changes nothing: the
  queue, the number of discovered links and the count of new links are those after the
  first offer, a queue without duplicates stays without duplicates, and the count grows
  by at most one. At every point of every crawl the queue holds each URL at most once.
\<close>

theorem offer_twice:
  "(link \<in> set (found_links s) \<longrightarrow> offer link (s, k) = (s, k))
   \<and> offer link (offer link (s, k)) = offer link (s, k)
   \<and> (distinct (url_queue s) \<longrightarrow> distinct (url_queue (fst (offer link (offer link (s, k))))))
   \<and> set_len (found_links (fst (offer link (offer link (s, k)))))
        = set_len (found_links (fst (offer link (s, k))))
   \<and> snd (offer link (offer link (s, k))) \<le> k + 1
   \<and> (\<forall>p \<in> crawl_points E start_url self. distinct (url_queue p))"
proof -
  obtain s1 k1 where o: "offer link (s, k) = (s1, k1)" by (cases "offer link (s, k)")
  from offer_found [of link s k] o have "link \<in> set (found_links s1)" by simp
  then have twice: "offer link (offer link (s, k)) = offer link (s, k)"
    by (simp add: o offer_known)
  have le: "snd (offer link (s, k)) \<le> k + 1" by (simp add: offer_def Let_def)
  have pts: "distinct (url_queue p)" if "p \<in> crawl_points E start_url self" for p
    using that
  proof (rule crawl_points_induct)
    show "distinct (url_queue (enqueue_start start_url self))" by (simp add: enqueue_start_def)
  next
    show "distinct (url_queue ((enqueue_start start_url self)
            \<lparr>found_links := set_add start_url (found_links self)\<rparr>))"
      by (simp add: enqueue_start_def)
  next
    fix n s q
    assume "distinct (url_queue s)" and "q \<in> set (iter_points E n s)"
    then show "distinct (url_queue q)" by (rule iter_points_queue_distinct)
  next
    fix s :: crawler and t
    assume "distinct (url_queue s)"
    then show "distinct (url_queue (s\<lparr>trace := t\<rparr>))" by simp
  qed
  from twice le pts show ?thesis
    by (auto simp: offer_known intro: offer_queue_distinct)
qed

text \<open>The new crawler of the examples once the start URL of the example site is seeded.\<close>

definition example_seeded :: crawler where
  "example_seeded =
     (init 10 0 True False)\<lparr>url_queue := [''https://x.com/''], found_links := [''https://x.com/'']\<rparr>"

lemma example_seed:
  "seed example_env ''https://x.com/'' (init 10 0 True False) = Inr example_seeded"
  "crawl_begin example_env ''https://x.com/'' (init 10 0 True False) = Inr example_seeded"
  by (simp_all add: crawl_defs example_seeded_def example_seed_domain)

theorem offer_twice_witness:
  "offer ''https://x.com/b'' (offer ''https://x.com/b'' (example_seeded, 0))
     = (example_seeded
          \<lparr>found_links := [''https://x.com/'', ''https://x.com/b''],
           url_queue := [''https://x.com/'', ''https://x.com/b'']\<rparr>, 1)
   \<and> offer ''https://x.com/'' (example_seeded, 0)
     = (example_seeded, 0)
   \<and> distinct (url_queue (fst (offer ''https://x.com/b''
        (offer ''https://x.com/b'' (example_seeded, 0)))))
   \<and> distinct (url_queue (example_seeded))"
proof -
  note t = offer_twice [of "''https://x.com/b''" "example_seeded" 0
      example_env "''https://x.com/''" "init 10 0 True False"]
  note t' = offer_twice [of "''https://x.com/''" "example_seeded" 0
      example_env "''https://x.com/''" "init 10 0 True False"]
  have q: "distinct (url_queue (example_seeded))"
    by (simp add: example_seeded_def init_def)
  have f: "''https://x.com/'' \<in> set (found_links (example_seeded))"
    by (simp add: example_seeded_def init_def)
  have o: "offer ''https://x.com/b'' (example_seeded, 0)
     = (example_seeded
          \<lparr>found_links := [''https://x.com/'', ''https://x.com/b''],
           url_queue := [''https://x.com/'', ''https://x.com/b'']\<rparr>, 1)"
    by (simp add: offer_def example_seeded_def init_def set_add_def Let_def)
  from t t' q f o show ?thesis by simp
qed

section \<open>Failed fetches\<close>


lemma update_progress_Inr:
  "max_pages s \<noteq> 0 \<or> \<not> progress_callback s \<Longrightarrow>
   update_progress msg cur k s
     = Inr (s\<lparr>trace := trace s @
              (if progress_callback s then [Progress (progress_data msg cur k s)] else [])\<rparr>)"
  by (auto simp: update_progress_def)


lemma is_valid_url_error: "is_valid_url E s u b = Inl e \<Longrightarrow> e = ValueError \<and> \<not> libs_return E"
  by (auto simp: is_valid_url_def get_domain_def libs_return_def Let_def
      split: if_splits option.splits)

lemma collect_links_error:
  "collect_links E s b d hrefs links = Inl e \<Longrightarrow> e = ValueError \<and> \<not> libs_return E"
proof (induction hrefs arbitrary: links)
  case Nil
  then show ?case by simp
next
  case (Cons h hs)
  show ?case
  proof (cases "urljoin E b h")
    case None
    with Cons.prems show ?thesis by (auto simp: libs_return_def)
  next
    case (Some u)
    show ?thesis
    proof (cases "is_valid_url E s u d")
      case (Inl e')
      with Cons.prems Some is_valid_url_error [OF Inl] show ?thesis by simp
    next
      case (Inr v)
      with Cons.prems Some
      have "collect_links E s b d hs (if v then set_add u links else links) = Inl e" by simp
      then show ?thesis by (rule Cons.IH)
    qed
  qed
qed

text \<open>\<^verbatim>\<open>extract_links\<close> raises nothing but the \<^verbatim>\<open>ValueError\<close> of the URL library.\<close>

lemma extract_links_error:
  "extract_links E s html u = Inl e \<Longrightarrow> e = ValueError \<and> \<not> libs_return E"
  by (auto simp: extract_links_def get_domain_def libs_return_def
      split: option.splits sum.splits dest: collect_links_error)





lemma dict_set_new: "k \<notin> set (map fst d) \<Longrightarrow> dict_set k v d = d @ [(k, v)]"
  by (induction d) auto











section \<open>Link extraction\<close>

lemma is_valid_url_domain:
  "is_valid_url E self u b = Inr True \<Longrightarrow> same_domain_only self \<Longrightarrow> get_domain E u = Inr b"
  by (auto simp: is_valid_url_def Let_def split: if_splits sum.splits)

lemma is_valid_url_base:
  "\<not> same_domain_only self \<Longrightarrow> is_valid_url E self u b = is_valid_url E self u b'"
  by (simp add: is_valid_url_def)

lemma collect_links_base:
  "\<not> same_domain_only self \<Longrightarrow>
   collect_links E self base_url b hrefs links = collect_links E self base_url b' hrefs links"
  by (induction hrefs arbitrary: links)
    (simp_all add: is_valid_url_base [of self E _ b b'] split: option.splits sum.splits)

text \<open>
  When the loop over the anchors returns, every href was resolved and filtered, and the
  URLs that passed the filter have been added, each once.
\<close>

lemma collect_links_Inr:
  "collect_links E self base_url b hrefs acc = Inr links \<Longrightarrow>
   \<exists>resolved. those (map (urljoin E base_url) hrefs) = Some resolved
     \<and> list_all (\<lambda>u. is_valid_url E self u b = Inr True \<or> is_valid_url E self u b = Inr False)
          resolved
     \<and> set links = set acc \<union> set (filter (\<lambda>u. is_valid_url E self u b = Inr True) resolved)
     \<and> (distinct acc \<longrightarrow> distinct links)"
proof (induction hrefs arbitrary: acc)
  case Nil
  then show ?case by simp
next
  case (Cons h hs)
  from Cons.prems obtain u where u: "urljoin E base_url h = Some u"
    by (cases "urljoin E base_url h") simp_all
  from Cons.prems u obtain v where v: "is_valid_url E self u b = Inr v"
    by (cases "is_valid_url E self u b") simp_all
  from Cons.prems u v
  have "collect_links E self base_url b hs (if v then set_add u acc else acc) = Inr links"
    by simp
  from Cons.IH [OF this] obtain resolved
    where r: "those (map (urljoin E base_url) hs) = Some resolved"
      and a: "list_all (\<lambda>u. is_valid_url E self u b = Inr True \<or> is_valid_url E self u b = Inr False)
                resolved"
      and s: "set links = set (if v then set_add u acc else acc)
                \<union> set (filter (\<lambda>u. is_valid_url E self u b = Inr True) resolved)"
      and d: "distinct (if v then set_add u acc else acc) \<longrightarrow> distinct links"
    by blast
  from r u have "those (map (urljoin E base_url) (h # hs)) = Some (u # resolved)" by simp
  moreover from a v
  have "list_all (\<lambda>u. is_valid_url E self u b = Inr True \<or> is_valid_url E self u b = Inr False)
          (u # resolved)" by (cases v) simp_all
  moreover from s v
  have "set links = set acc
          \<union> set (filter (\<lambda>u. is_valid_url E self u b = Inr True) (u # resolved))"
    by (cases v) auto
  moreover from d have "distinct acc \<longrightarrow> distinct links" by (cases v) simp_all
  ultimately show ?case by blast
qed

text \<open>When \<^verbatim>\<open>extract_links\<close> returns: the domain of the page was found, and so on.\<close>

lemma extract_links_Inr:
  assumes "set_iter_ok E" and "extract_links E self html base_url = Inr links"
  shows "\<exists>base_domain resolved. get_domain E base_url = Inr base_domain
    \<and> those (map (urljoin E base_url) (find_all_a_href E html)) = Some resolved
    \<and> list_all (\<lambda>u. is_valid_url E self u base_domain = Inr True
                   \<or> is_valid_url E self u base_domain = Inr False) resolved
    \<and> set links = set (filter (\<lambda>u. is_valid_url E self u base_domain = Inr True) resolved)
    \<and> distinct links"
proof -
  from assms(2) obtain b collected where b: "get_domain E base_url = Inr b"
    and c: "collect_links E self base_url b (find_all_a_href E html) [] = Inr collected"
    and l: "links = set_iter E collected"
    by (auto simp: extract_links_def split: sum.splits)
  from collect_links_Inr [OF c] obtain resolved
    where r: "those (map (urljoin E base_url) (find_all_a_href E html)) = Some resolved"
      and a: "list_all (\<lambda>u. is_valid_url E self u b = Inr True \<or> is_valid_url E self u b = Inr False)
                resolved"
      and s: "set collected = set (filter (\<lambda>u. is_valid_url E self u b = Inr True) resolved)"
      and d: "distinct collected"
    by auto
  from assms(1) d have "set (set_iter E collected) = set collected \<and> distinct (set_iter E collected)"
    unfolding set_iter_ok_def by blast
  with b r a s l show ?thesis by auto
qed

lemma extract_links_valid:
  assumes "set_iter_ok E" and "extract_links E self html base_url = Inr links"
    and "l \<in> set links"
  shows "\<exists>base_domain. get_domain E base_url = Inr base_domain
           \<and> is_valid_url E self l base_domain = Inr True"
  using extract_links_Inr [OF assms(1,2)] assms(3) by auto

text \<open>When the URL library raises on nothing, \<^verbatim>\<open>extract_links\<close> returns.\<close>

lemma extract_links_returns:
  "libs_return E \<Longrightarrow> \<exists>links. extract_links E self html base_url = Inr links"
  using extract_links_error [of E self html base_url]
  by (cases "extract_links E self html base_url") auto




lemma example_set_iter_ok: "set_iter_ok example_env"
  by (simp add: set_iter_ok_def example_env_def)


section \<open>Construction\<close>

text \<open>
  \<^verbatim>\<open>__init__\<close> stores \<^verbatim>\<open>max_pages\<close> as given: with \<^verbatim>\<open>max_pages = 0\<close> a crawler is
  constructed, and \<^verbatim>\<open>crawl_website\<close> runs on it and returns.
\<close>

theorem init_accepts_max_pages_zero:
  "max_pages (init 0 2 True False) = 0
   \<and> crawl_website example_env ''https://x.com/'' (init 0 2 True False)
       = Inr ([], (init 0 2 True False)
                    \<lparr>url_queue := [''https://x.com/''], found_links := [''https://x.com/'']\<rparr>)"
  by (simp add: crawl_defs crawl_loop.simps example_seed_domain)

text \<open>
  C7, amended. The constructor checks nothing: it stores any \<^verbatim>\<open>max_pages\<close>. A crawl on a
  new crawler with \<^verbatim>\<open>max_pages\<close> below 1 (and, when a progress callback is set,
  \<^verbatim>\<open>max_pages\<close> other than 0), from a start URL on which \<^verbatim>\<open>urlparse\<close> returns, returns the
  empty dict: the loop is not entered, no page is fetched, none is visited, and the start
  URL stays in the queue. From a start URL on which \<^verbatim>\<open>urlparse\<close> raises, the crawl raises
  \<^verbatim>\<open>ValueError\<close>, whatever \<^verbatim>\<open>max_pages\<close> is.
\<close>

theorem init_validates_nothing:
  "max_pages (init N d sdo cb) = N
   \<and> (N < 1 \<and> (cb \<longrightarrow> N \<noteq> 0) \<and> netloc E start_url = Some domain
      \<longrightarrow> (\<exists>s'. crawl_website E start_url (init N d sdo cb) = Inr ([], s')
            \<and> visited_urls s' = [] \<and> url_queue s' = [start_url]
            \<and> list_all (\<lambda>e. case e of Fetch u \<Rightarrow> False | _ \<Rightarrow> True) (trace s')))
   \<and> (netloc E start_url = None
      \<longrightarrow> crawl_website E start_url (init N d sdo cb) = Inl ValueError)"
  by (auto simp: crawl_defs get_domain_def crawl_loop.simps)

theorem init_validates_nothing_witness:
  "\<exists>s'. crawl_website example_env ''https://x.com/'' (init (- 1) 2 True True) = Inr ([], s')
        \<and> visited_urls s' = [] \<and> url_queue s' = [''https://x.com/'']
        \<and> list_all (\<lambda>e. case e of Fetch u \<Rightarrow> False | _ \<Rightarrow> True) (trace s')"
proof (rule init_validates_nothing [THEN conjunct2, THEN conjunct1, THEN mp])
  show "(- 1 :: int) < 1 \<and> (True \<longrightarrow> (- 1 :: int) \<noteq> 0)
      \<and> netloc example_env ''https://x.com/'' = Some ''x.com''"
    by (simp add: example_env_def example_netloc)
qed

section \<open>The seeding\<close>

text \<open>
  C9 at the start of a crawl. Line 159 puts the start URL in the queue, line 162 adds it
  to the found links, and line 161 between them calls \<^verbatim>\<open>urlparse\<close>. On a new crawler the
  object after line 159 is a point of the crawl at which the queue holds a URL that is
  not among the found links; for the start URL \<^verbatim>\<open>http://[\<close> line 161 raises, and the
  crawl ends with the object in that state. (At every later point of a crawl the queue
  and the visited URLs are among the found links: \<open>crawl_points_discovered\<close>. The loop
  over \<^verbatim>\<open>page_links\<close> adds a link to the found links before it appends it to the queue.)
\<close>

theorem seed_queued_before_found:
  "enqueue_start ''http://['' (init 10 0 True False)
      \<in> crawl_points example_env ''http://['' (init 10 0 True False)
   \<and> url_queue (enqueue_start ''http://['' (init 10 0 True False)) = [''http://['']
   \<and> found_links (enqueue_start ''http://['' (init 10 0 True False)) = []
   \<and> \<not> set (url_queue (enqueue_start ''http://['' (init 10 0 True False)))
        \<subseteq> set (found_links (enqueue_start ''http://['' (init 10 0 True False)))
   \<and> seed example_env ''http://['' (init 10 0 True False) = Inl ValueError
   \<and> crawl_website example_env ''http://['' (init 10 0 True False) = Inl ValueError
   \<and> enqueue_start ''https://x.com/'' (init 10 0 True False)
      \<in> crawl_points example_env ''https://x.com/'' (init 10 0 True False)
   \<and> \<not> set (url_queue (enqueue_start ''https://x.com/'' (init 10 0 True False)))
        \<subseteq> set (found_links (enqueue_start ''https://x.com/'' (init 10 0 True False)))"
  by (simp add: crawl_points.queued)
    (simp add: crawl_defs example_seed_domain)

section \<open>The scope of a crawl\<close>

lemma extract_links_spec:
  assumes "get_domain E page_url = Inr seed_domain"
  shows "extract_links E self html page_url = spec_extract_links E self seed_domain html page_url"
  using assms by (simp add: extract_links_def spec_extract_links_def)

lemma extract_links_spec_any:
  assumes "\<not> same_domain_only self"
  shows "extract_links E self html page_url = spec_extract_links E self seed_domain html page_url
       \<or> (get_domain E page_url = Inl ValueError
           \<and> extract_links E self html page_url = Inl ValueError)"
proof (cases "netloc E page_url")
  case None
  then show ?thesis by (simp add: extract_links_def get_domain_def)
next
  case (Some b)
  have "collect_links E self page_url b hrefs [] = collect_links E self page_url seed_domain hrefs []"
    for hrefs
    using assms by (rule collect_links_base)
  with Some show ?thesis by (simp add: extract_links_def spec_extract_links_def get_domain_def)
qed

lemma offer_points_queue:
  "q \<in> set (offer_points links s) \<Longrightarrow> set (url_queue q) \<subseteq> set (url_queue s) \<union> set links"
proof (induction links arbitrary: s)
  case Nil
  then show ?case by simp
next
  case (Cons l ls)
  let ?s1 = "s\<lparr>found_links := set_add l (found_links s)\<rparr>"
  let ?s2 = "?s1\<lparr>url_queue := url_queue ?s1 @ [l]\<rparr>"
  from Cons.prems
  have "q \<in> set (offer_points ls s) \<or> q = ?s1 \<or> q \<in> set (offer_points ls ?s1)
      \<or> q = ?s2 \<or> q \<in> set (offer_points ls ?s2)"
    by (auto simp: Let_def split: if_splits)
  then show ?case using Cons.IH [of s] Cons.IH [of ?s1] Cons.IH [of ?s2] by auto
qed

definition scope_inv :: "env \<Rightarrow> string \<Rightarrow> bool \<Rightarrow> crawler \<Rightarrow> bool" where
  "scope_inv E start_url sdo s =
     (same_domain_only s = sdo
      \<and> (sdo \<longrightarrow> list_all (\<lambda>u. get_domain E u = get_domain E start_url) (url_queue s)))"

lemma iter_points_scope:
  assumes ok: "set_iter_ok E" and inv: "scope_inv E start_url sdo s"
    and q: "q \<in> set (iter_points E n s)"
  shows "scope_inv E start_url sdo q"
proof (cases "url_queue s")
  case Nil
  with q show ?thesis by (simp add: iter_points_def)
next
  case (Cons cur rest)
  let ?s1 = "s\<lparr>url_queue := rest\<rparr>"
  from inv Cons have i1: "scope_inv E start_url sdo ?s1"
    and cur: "sdo \<longrightarrow> get_domain E cur = get_domain E start_url"
    by (simp_all add: scope_inv_def)
  show ?thesis
  proof (cases "cur \<in> set (visited_urls s) \<or> scrape_single_page E n cur = None
      \<or> scrape_single_page E n cur = Some []")
    case True
    with q Cons have "q = ?s1" by (auto simp: iter_points_def Let_def split: if_splits)
    with i1 show ?thesis by simp
  next
    case False
    then obtain html where h: "scrape_single_page E n cur = Some html" "html \<noteq> []"
      and nv: "cur \<notin> set (visited_urls s)" by auto
    let ?s2 = "?s1\<lparr>visited_urls := set_add cur (visited_urls ?s1)\<rparr>"
    let ?s3 = "?s2\<lparr>scraped_content := dict_set cur html (scraped_content ?s2)\<rparr>"
    from i1 have i2: "scope_inv E start_url sdo ?s2" and i3: "scope_inv E start_url sdo ?s3"
      by (simp_all add: scope_inv_def)
    have "scope_inv E start_url sdo q"
      if e: "extract_links E ?s3 html cur = Inr links" and m: "q \<in> set (offer_points links ?s3)"
      for links
    proof -
      have links: "get_domain E l = get_domain E start_url" if "sdo" and "l \<in> set links" for l
      proof -
        from extract_links_valid [OF ok e that(2)] obtain b
          where b: "get_domain E cur = Inr b" and v: "is_valid_url E ?s3 l b = Inr True"
          by auto
        from inv that(1) have "same_domain_only ?s3" by (simp add: scope_inv_def)
        with v have "get_domain E l = Inr b" by (rule is_valid_url_domain)
        with b cur that(1) show ?thesis by simp
      qed
      from offer_points_fields [OF m] i3 have "same_domain_only q = sdo"
        by (simp add: scope_inv_def)
      moreover from offer_points_queue [OF m] i3 links
      have "sdo \<longrightarrow> (\<forall>u \<in> set (url_queue q). get_domain E u = get_domain E start_url)"
        by (auto simp: scope_inv_def list_all_iff)
      ultimately show ?thesis by (simp add: scope_inv_def list_all_iff)
    qed
    moreover from q Cons h nv
    have "q = ?s1 \<or> q = ?s2 \<or> q = ?s3
        \<or> (\<exists>links. extract_links E ?s3 html cur = Inr links \<and> q \<in> set (offer_points links ?s3))"
      by (auto simp: iter_points_def Let_def split: sum.splits)
    ultimately show ?thesis using i1 i2 i3 by blast
  qed
qed

lemma crawl_points_scope:
  assumes "set_iter_ok E" and "p \<in> crawl_points E start_url self"
  shows "scope_inv E start_url (same_domain_only self) p"
  using assms(2)
proof (rule crawl_points_induct)
  show "scope_inv E start_url (same_domain_only self) (enqueue_start start_url self)"
    by (simp add: scope_inv_def enqueue_start_def)
next
  show "scope_inv E start_url (same_domain_only self)
    ((enqueue_start start_url self)\<lparr>found_links := set_add start_url (found_links self)\<rparr>)"
    by (simp add: scope_inv_def enqueue_start_def)
next
  fix n s q
  assume "scope_inv E start_url (same_domain_only self) s" and "q \<in> set (iter_points E n s)"
  with assms(1) show "scope_inv E start_url (same_domain_only self) q"
    by (rule iter_points_scope)
next
  fix s t
  assume "scope_inv E start_url (same_domain_only self) s"
  then show "scope_inv E start_url (same_domain_only self) (s\<lparr>trace := t\<rparr>)"
    by (simp add: scope_inv_def)
qed

text \<open>
  C2. Let \<open>cur\<close> be the page at the head of the queue at some head of the loop of a
  crawl from \<open>start_url\<close>, that is any page the crawl fetches, and let Python iterate
  over sets as it does. The code filters the links of \<open>cur\<close> with the domain of \<open>cur\<close>
  as base domain. The start URL has a domain, the one \<^verbatim>\<open>urlparse\<close> returned at line 161.
  With \<^verbatim>\<open>same_domain_only\<close> set, \<open>cur\<close> has the domain of the start URL, and whatever
  markup the fetch returns and whichever crawler of the same \<^verbatim>\<open>same_domain_only\<close> does the
  extraction, the result, a list of links or an error, is the one that the domain of the
  start URL as base domain gives, and every link of the list has the domain of the start
  URL. With \<^verbatim>\<open>same_domain_only\<close> not set the filter does not look at the base domain, and
  the results are equal again, unless \<^verbatim>\<open>urlparse\<close> raises on \<open>cur\<close> itself.
\<close>

theorem scope_anchored_at_seed:
  assumes "set_iter_ok E"
    and "crawl_begin E start_url self = Inr s1"
    and "(n, s) \<in> loop_states E s1"
    and "url_queue s = cur # rest"
    and "same_domain_only c = same_domain_only self"
  shows "\<exists>seed_domain. get_domain E start_url = Inr seed_domain
       \<and> (extract_links E c html cur = spec_extract_links E c seed_domain html cur
          \<or> (\<not> same_domain_only self \<and> get_domain E cur = Inl ValueError
              \<and> extract_links E c html cur = Inl ValueError))
       \<and> (same_domain_only self \<longrightarrow>
            get_domain E cur = get_domain E start_url
            \<and> extract_links E c html cur = spec_extract_links E c seed_domain html cur
            \<and> (\<forall>links. extract_links E c html cur = Inr links
                 \<longrightarrow> list_all (\<lambda>l. get_domain E l = get_domain E start_url) links))
       \<and> same_domain_only s = same_domain_only self"
proof -
  from crawl_begin_Inr [OF assms(2)] obtain s0 where "seed E start_url self = Inr s0" by blast
  from seed_Inr(2) [OF this] obtain seed_domain
    where sd: "get_domain E start_url = Inr seed_domain"
    by (auto simp: get_domain_def)
  from assms(2,3) have "s \<in> crawl_points E start_url self" by (rule crawl_points.head)
  from crawl_points_scope [OF assms(1) this] assms(4)
  have f: "same_domain_only s = same_domain_only self"
    and d: "same_domain_only self \<longrightarrow> get_domain E cur = get_domain E start_url"
    by (simp_all add: scope_inv_def)
  have e: "extract_links E c html cur = spec_extract_links E c seed_domain html cur"
    if "same_domain_only self"
    using that d sd by (intro extract_links_spec) simp
  have a: "extract_links E c html cur = spec_extract_links E c seed_domain html cur
          \<or> (\<not> same_domain_only self \<and> get_domain E cur = Inl ValueError
              \<and> extract_links E c html cur = Inl ValueError)"
  proof (cases "same_domain_only self")
    case True
    with e show ?thesis by simp
  next
    case False
    with assms(5) have "\<not> same_domain_only c" by simp
    from extract_links_spec_any [OF this, of E html cur seed_domain] False
    show ?thesis by blast
  qed
  have l: "get_domain E l = get_domain E start_url"
    if "same_domain_only self" and "extract_links E c html cur = Inr links" and "l \<in> set links"
    for l links
  proof -
    from extract_links_valid [OF assms(1) that(2,3)] obtain b
      where b: "get_domain E cur = Inr b" and v: "is_valid_url E c l b = Inr True"
      by auto
    from that(1) assms(5) have "same_domain_only c" by simp
    with v have "get_domain E l = Inr b" by (rule is_valid_url_domain)
    with b d that(1) show ?thesis by simp
  qed
  from sd a e d l f show ?thesis by (simp add: list_all_iff)
qed

lemma example_first_iteration:
  "crawl_iter example_env 0 example_seeded
     = Inr \<lparr>max_pages = 10, delay = 0, same_domain_only = True,
             visited_urls = [''https://x.com/''],
             scraped_content = [(''https://x.com/'', ''<seed>'')],
             url_queue = [''https://x.com/b'', ''https://x.com/c''],
             found_links = [''https://x.com/'', ''https://x.com/b'', ''https://x.com/c''],
             progress_callback = False,
             trace = [Fetch ''https://x.com/'']\<rparr>"
  by (simp add: example_seeded_def crawl_defs example_fetch example_extract)

theorem scope_anchored_at_seed_witness:
  "get_domain example_env ''https://x.com/'' = Inr ''x.com''
   \<and> extract_links example_env (init 10 0 True False) ''<b>'' ''https://x.com/b''
     = spec_extract_links example_env (init 10 0 True False) ''x.com'' ''<b>'' ''https://x.com/b''
   \<and> get_domain example_env ''https://x.com/b'' = get_domain example_env ''https://x.com/''
   \<and> list_all (\<lambda>l. get_domain example_env l = get_domain example_env ''https://x.com/'')
        [''https://x.com/d'']"
proof -
  let ?next = "\<lparr>max_pages = 10, delay = 0, same_domain_only = True,
             visited_urls = [''https://x.com/''],
             scraped_content = [(''https://x.com/'', ''<seed>'')],
             url_queue = [''https://x.com/b'', ''https://x.com/c''],
             found_links = [''https://x.com/'', ''https://x.com/b'', ''https://x.com/c''],
             progress_callback = False,
             trace = [Fetch ''https://x.com/'']\<rparr>"
  have c: "loop_cond example_seeded" by (simp add: example_seeded_def crawl_defs)
  from loop_states.iter [OF loop_states.start c example_first_iteration]
  have l: "(Suc 0, ?next) \<in> loop_states example_env example_seeded" .
  have q: "url_queue ?next = ''https://x.com/b'' # [''https://x.com/c'']" by simp
  have f: "same_domain_only (init 10 0 True False) = same_domain_only (init 10 0 True False)" ..
  have t: "same_domain_only (init 10 0 True False)" by (simp add: init_def)
  have d: "get_domain example_env ''https://x.com/'' = Inr ''x.com''"
    by (simp add: get_domain_def example_env_def example_netloc)
  have x: "extract_links example_env (init 10 0 True False) ''<b>'' ''https://x.com/b''
      = Inr [''https://x.com/d'']"
    by (simp add: example_extract init_def)
  from scope_anchored_at_seed [OF example_set_iter_ok example_seed(2) l q f, of "''<b>''"] t d x
  show ?thesis by auto
qed

section \<open>The order of the crawl\<close>

lemma fetched_append [simp]: "fetched (es @ fs) = fetched es @ fetched fs"
  by (induction es rule: fetched.induct) simp_all

lemma update_progress_fetched:
  "update_progress msg cur k s = Inr s' \<Longrightarrow> fetched (trace s') = fetched (trace s)"
  by (auto simp: update_progress_def split: if_splits)

lemma fresh_links_distinct:
  "distinct found \<Longrightarrow> distinct (found @ fresh_links links found)"
proof (induction links arbitrary: found)
  case Nil
  then show ?case by simp
next
  case (Cons l ls)
  show ?case
  proof (cases "l \<in> set found")
    case True
    with Cons show ?thesis by simp
  next
    case False
    with Cons.prems have "distinct (found @ [l])" by simp
    from Cons.IH [OF this] False show ?thesis by simp
  qed
qed

lemma fold_offer_fresh:
  assumes "discovered_inv s" and "fold offer links (s, k) = (s', k')"
  shows "found_links s' = found_links s @ fresh_links links (found_links s)
       \<and> url_queue s' = url_queue s @ fresh_links links (found_links s)
       \<and> k' = k + length (fresh_links links (found_links s))"
  using assms
proof (induction links arbitrary: s k)
  case Nil
  then show ?case by simp
next
  case (Cons l ls)
  show ?case
  proof (cases "l \<in> set (found_links s)")
    case True
    with Cons.prems(2) have "fold offer ls (s, k) = (s', k')" by (simp add: offer_known)
    from Cons.IH [OF Cons.prems(1) this] True show ?thesis by simp
  next
    case False
    let ?s2 = "s\<lparr>found_links := found_links s @ [l], url_queue := url_queue s @ [l]\<rparr>"
    from False Cons.prems(1) have o: "offer l (s, k) = (?s2, k + 1)"
      by (auto simp: offer_def discovered_inv_def set_add_def Let_def)
    with Cons.prems(2) have f: "fold offer ls (?s2, k + 1) = (s', k')" by simp
    from Cons.prems(1) have "discovered_inv ?s2" by (auto simp: discovered_inv_def)
    from Cons.IH [OF this f] False show ?thesis by simp
  qed
qed

lemma crawl_iter_trace:
  assumes "crawl_iter E n s = Inr s'" and "url_queue s = cur # rest"
  shows "fetched (trace s') = fetched (trace s) @ (if cur \<in> set (visited_urls s) then [] else [cur])"
proof (cases "cur \<in> set (visited_urls s)")
  case True
  with assms show ?thesis by (auto simp: crawl_iter_def)
next
  case False
  let ?s1 = "s\<lparr>url_queue := rest\<rparr>"
  from assms False obtain s2 where u2: "update_progress Scraping (Some cur) 0 ?s1 = Inr s2"
    by (auto simp: crawl_iter_def split: sum.splits)
  let ?s3 = "s2\<lparr>trace := trace s2 @ [Fetch cur]\<rparr>"
  from update_progress_fetched [OF u2]
  have t3: "fetched (trace ?s3) = fetched (trace s) @ [cur]" by simp
  show ?thesis
  proof (cases "scrape_single_page E n cur = None \<or> scrape_single_page E n cur = Some []")
    case True
    with assms False u2 have "update_progress Failed (Some cur) 0 ?s3 = Inr s'"
      by (auto simp: crawl_iter_def)
    from update_progress_fetched [OF this] t3 False show ?thesis by simp
  next
    case nf: False
    then obtain html where h: "scrape_single_page E n cur = Some html" "html \<noteq> []" by auto
    let ?s4 = "mark_visited cur html ?s3"
    from assms False u2 h obtain links where e: "extract_links E ?s4 html cur = Inr links"
      by (auto simp: crawl_iter_def Let_def split: sum.splits)
    obtain s5 k where f: "fold offer links (?s4, 0) = (s5, k)" by (cases "fold offer links (?s4, 0)")
    from assms False u2 h e f obtain s6 where
      u6: "update_progress (FoundNew k) (Some cur) (length links) s5 = Inr s6"
      and s': "s' = (if 0 < delay s6 then s6\<lparr>trace := trace s6 @ [Sleep (delay s6)]\<rparr> else s6)"
      by (auto simp: crawl_iter_def Let_def split: sum.splits)
    from fold_offer_fields [OF f] have "trace s5 = trace ?s4" by simp
    then have "fetched (trace s5) = fetched (trace ?s3)" by (simp add: mark_visited_def)
    with update_progress_fetched [OF u6] t3 have "fetched (trace s6) = fetched (trace s) @ [cur]"
      by simp
    with s' False show ?thesis by simp
  qed
qed

text \<open>
  The fetched URLs followed by the queue are the found links in the order in which they
  were found, which starts with the start URL; the visited URLs are among the fetched
  ones, in the same order, and they are the keys of the stored content, in order.
\<close>

definition order_inv :: "string \<Rightarrow> crawler \<Rightarrow> bool" where
  "order_inv start_url s =
     (found_links s = fetched (trace s) @ url_queue s
      \<and> distinct (found_links s)
      \<and> take 1 (found_links s) = [start_url]
      \<and> subseq (visited_urls s) (fetched (trace s))
      \<and> map fst (scraped_content s) = visited_urls s)"

lemma order_inv_discovered: "order_inv start_url s \<Longrightarrow> discovered_inv s"
  by (auto simp: order_inv_def discovered_inv_def dest: list_emb_set)

lemma order_inv_head:
  assumes "order_inv start_url s" and "url_queue s = cur # rest"
  shows "cur \<notin> set (visited_urls s)"
proof
  assume "cur \<in> set (visited_urls s)"
  with assms(1) have m: "cur \<in> set (fetched (trace s))"
    by (auto simp: order_inv_def dest: list_emb_set)
  from assms(1) have "distinct (found_links s)"
    and "found_links s = fetched (trace s) @ url_queue s"
    unfolding order_inv_def by blast+
  with assms(2) have "distinct (fetched (trace s) @ cur # rest)" by simp
  with m show False by simp
qed

lemma take_1_append: "take 1 xs = [x] \<Longrightarrow> take 1 (xs @ ys) = [x]"
  by (cases xs) simp_all

lemma crawl_iter_order:
  assumes inv: "order_inv start_url s" and c: "loop_cond s" and i: "crawl_iter E n s = Inr s'"
  shows "order_inv start_url s'"
proof -
  from c obtain cur rest where q: "url_queue s = cur # rest"
    by (cases "url_queue s") (simp_all add: loop_cond_def)
  from order_inv_head [OF inv q] have nv: "cur \<notin> set (visited_urls s)" .
  from crawl_iter_trace [OF i q] nv
  have t: "fetched (trace s') = fetched (trace s) @ [cur]" by simp
  from inv have i1: "found_links s = fetched (trace s) @ url_queue s"
    and i2: "distinct (found_links s)"
    and i3: "take 1 (found_links s) = [start_url]"
    and i4: "subseq (visited_urls s) (fetched (trace s))"
    and i5: "map fst (scraped_content s) = visited_urls s"
    unfolding order_inv_def by blast+
  from crawl_iter_Inr [OF i q] nv
  consider (failed) t' where "s' = s\<lparr>url_queue := rest, trace := t'\<rparr>"
    | (ok) html links s5 k t' where "html \<noteq> []" "extract_links E s html cur = Inr links"
        "fold offer links (mark_visited cur html (s\<lparr>url_queue := rest\<rparr>), 0) = (s5, k)"
        "s' = s5\<lparr>trace := t'\<rparr>"
    by blast
  then show ?thesis
  proof cases
    case failed
    from failed t have f1: "found_links s' = fetched (trace s') @ url_queue s'"
      using i1 q by simp
    from failed have f2: "distinct (found_links s')" and f3: "take 1 (found_links s') = [start_url]"
      and f5: "map fst (scraped_content s') = visited_urls s'"
      using i2 i3 i5 by simp_all
    from i4 have "subseq (visited_urls s) (fetched (trace s) @ [cur])"
      by (rule subseq_rev_drop_many)
    with failed t have f4: "subseq (visited_urls s') (fetched (trace s'))" by simp
    from f1 f2 f3 f4 f5 show ?thesis by (simp add: order_inv_def)
  next
    case ok
    let ?m = "mark_visited cur html (s\<lparr>url_queue := rest\<rparr>)"
    from order_inv_discovered [OF inv] q have "discovered_inv ?m"
      by (auto simp: discovered_inv_def mark_visited_def set_add_def)
    from fold_offer_fresh [OF this ok(3)] fold_offer_fields [OF ok(3)] ok(4) nv
    have v: "visited_urls s' = visited_urls s @ [cur]"
      and sc: "scraped_content s' = dict_set cur html (scraped_content s)"
      and f: "found_links s' = found_links s @ fresh_links links (found_links s)"
      and u: "url_queue s' = rest @ fresh_links links (found_links s)"
      by (simp_all add: mark_visited_def set_add_def)
    from i5 nv have "cur \<notin> set (map fst (scraped_content s))" by simp
    with sc have sc': "scraped_content s' = scraped_content s @ [(cur, html)]"
      by (simp add: dict_set_new)
    from f u t i1 q have f1: "found_links s' = fetched (trace s') @ url_queue s'" by simp
    from i2 have "distinct (found_links s @ fresh_links links (found_links s))"
      by (rule fresh_links_distinct)
    with f have f2: "distinct (found_links s')" by simp
    from i3 have "take 1 (found_links s @ fresh_links links (found_links s)) = [start_url]"
      by (rule take_1_append)
    with f have f3: "take 1 (found_links s') = [start_url]" by (simp only:)
    from i4 v t have f4: "subseq (visited_urls s') (fetched (trace s'))" by simp
    from sc' v i5 have f5: "map fst (scraped_content s') = visited_urls s'" by simp
    from f1 f2 f3 f4 f5 show ?thesis by (simp add: order_inv_def)
  qed
qed

lemma loop_states_order:
  assumes "(n, s) \<in> loop_states E s1" and "order_inv start_url s1"
  shows "order_inv start_url s"
  using assms
proof (induction rule: loop_states.induct)
  case start
  then show ?case .
next
  case (iter n s s')
  from iter.IH [OF iter.prems] iter.hyps(2,3) show ?case by (rule crawl_iter_order)
qed

lemma crawl_begin_order:
  assumes "crawl_begin E start_url (init N d sdo cb) = Inr s1"
  shows "order_inv start_url s1"
proof -
  from crawl_begin_Inr [OF assms] obtain s0
    where s: "seed E start_url (init N d sdo cb) = Inr s0"
      and u: "update_progress Starting (Some start_url) 0 s0 = Inr s1"
    by blast
  from seed_Inr(1) [OF s] have "order_inv start_url s0"
    by (simp add: order_inv_def enqueue_start_def init_def set_add_def)
  with update_progress_fetched [OF u] update_progress_trace [OF u] show ?thesis
    by (auto simp: order_inv_def)
qed

lemma crawl_website_order:
  assumes "crawl_website E start_url (init N d sdo cb) = Inr (content, s')"
  shows "order_inv start_url s' \<and> content = scraped_content s'"
proof -
  from assms obtain s1 s2
    where b: "crawl_begin E start_url (init N d sdo cb) = Inr s1"
      and l: "crawl_loop E 0 s1 = Inr s2"
      and u: "update_progress (Completed (set_len (visited_urls s2)) (set_len (found_links s2)))
                None 0 s2 = Inr s'"
      and c: "content = scraped_content s'"
    by (auto simp: crawl_website_def split: sum.splits)
  from crawl_loop_reaches [OF l loop_states.start] obtain n
    where "(n, s2) \<in> loop_states E s1" ..
  from loop_states_order [OF this crawl_begin_order [OF b]] have "order_inv start_url s2" .
  with update_progress_fetched [OF u] update_progress_trace [OF u] c show ?thesis
    by (auto simp: order_inv_def)
qed

text \<open>An iteration whose fetch succeeds and whose link extraction returns, field by field.\<close>

lemma crawl_iter_ok:
  assumes c: "max_pages s \<noteq> 0 \<or> \<not> progress_callback s"
    and inv: "discovered_inv s" and q: "url_queue s = cur # rest"
    and nv: "cur \<notin> set (visited_urls s)"
    and h: "scrape_single_page E n cur = Some html" "html \<noteq> []"
    and e: "extract_links E s html cur = Inr links"
  shows "\<exists>s'. crawl_iter E n s = Inr s'
    \<and> visited_urls s' = visited_urls s @ [cur]
    \<and> scraped_content s' = dict_set cur html (scraped_content s)
    \<and> found_links s' = found_links s @ fresh_links links (found_links s)
    \<and> url_queue s' = rest @ fresh_links links (found_links s)
    \<and> fetched (trace s') = fetched (trace s) @ [cur]
    \<and> max_pages s' = max_pages s \<and> delay s' = delay s
    \<and> same_domain_only s' = same_domain_only s \<and> progress_callback s' = progress_callback s"
proof -
  have e4: "extract_links E x html cur = Inr links" if "same_domain_only x = same_domain_only s"
    for x
    using e extract_links_cong [OF that, of E] by simp
  from q nv h c have "\<exists>s'. crawl_iter E n s = Inr s'"
    by (auto simp: crawl_iter_def Let_def update_progress_def e4 mark_visited_def
        split: prod.splits dest: fold_offer_fields)
  then obtain s' where i: "crawl_iter E n s = Inr s'" ..
  let ?m = "mark_visited cur html (s\<lparr>url_queue := rest\<rparr>)"
  from crawl_iter_Inr [OF i q] nv h e obtain s5 k t
    where f: "fold offer links (?m, 0) = (s5, k)"
      and s': "s' = s5\<lparr>trace := t\<rparr>"
    by auto
  from inv q have "discovered_inv ?m"
    by (auto simp: discovered_inv_def mark_visited_def set_add_def)
  from fold_offer_fresh [OF this f] fold_offer_fields [OF f] s' nv
  have "visited_urls s' = visited_urls s @ [cur]
    \<and> scraped_content s' = dict_set cur html (scraped_content s)
    \<and> found_links s' = found_links s @ fresh_links links (found_links s)
    \<and> url_queue s' = rest @ fresh_links links (found_links s)"
    by (simp add: mark_visited_def set_add_def)
  with i crawl_iter_trace [OF i q] crawl_iter_config [OF i] nv show ?thesis by simp
qed

lemma fresh_links_known: "set links \<subseteq> set found \<Longrightarrow> fresh_links links found = []"
  by (induction links) simp_all

lemma crawl_loop_step:
  "loop_cond s \<Longrightarrow> crawl_iter E n s = Inr s' \<Longrightarrow> crawl_loop E n s = crawl_loop E (Suc n) s'"
  by (subst crawl_loop.simps) simp

lemma crawl_loop_stop: "\<not> loop_cond s \<Longrightarrow> crawl_loop E n s = Inr s"
  by (subst crawl_loop.simps) simp

lemma extract_links_domain:
  "extract_links E self html base_url = Inr links \<Longrightarrow> \<exists>domain. netloc E base_url = Some domain"
  by (auto simp: extract_links_def get_domain_def split: option.splits sum.splits)

text \<open>
  A seed that links to \<open>B\<close> and \<open>C\<close>, in this order, \<open>B\<close> linking to \<open>D\<close>, and \<open>C\<close> and \<open>D\<close>
  linking to nothing new; every fetch succeeds and the budget is not below four pages.
\<close>

lemma bfs_example:
  assumes dist: "distinct [S, B, C, D]" and N: "4 \<le> N"
    and fS: "scrape_single_page E 0 S = Some hS" "hS \<noteq> []"
    and fB: "scrape_single_page E 1 B = Some hB" "hB \<noteq> []"
    and fC: "scrape_single_page E 2 C = Some hC" "hC \<noteq> []"
    and fD: "scrape_single_page E 3 D = Some hD" "hD \<noteq> []"
    and lS: "extract_links E (init N d sdo cb) hS S = Inr [B, C]"
    and lB: "extract_links E (init N d sdo cb) hB B = Inr [D]"
    and lC: "extract_links E (init N d sdo cb) hC C = Inr lc" "set lc \<subseteq> {S, B, C, D}"
    and lD: "extract_links E (init N d sdo cb) hD D = Inr ld" "set ld \<subseteq> {S, B, C, D}"
  shows "\<exists>content s'. crawl_website E S (init N d sdo cb) = Inr (content, s')
    \<and> fetched (trace s') = [S, B, C, D] \<and> visited_urls s' = [S, B, C, D]
    \<and> map fst content = [S, B, C, D] \<and> found_links s' = [S, B, C, D] \<and> url_queue s' = []"
proof -
  from extract_links_domain [OF lS] obtain domain where "netloc E S = Some domain" ..
  then have sd: "seed E S (init N d sdo cb)
      = Inr ((init N d sdo cb)\<lparr>url_queue := [S], found_links := [S]\<rparr>)" (is "_ = Inr ?s0")
    by (simp add: seed_def enqueue_start_def get_domain_def init_def set_add_def)
  from N have "max_pages ?s0 \<noteq> 0 \<or> \<not> progress_callback ?s0" by (simp add: init_def)
  from update_progress_Inr [OF this] obtain s1
    where u1: "update_progress Starting (Some S) 0 ?s0 = Inr s1"
    by blast
  from sd u1 have b: "crawl_begin E S (init N d sdo cb) = Inr s1" by (simp add: crawl_begin_def)
  from update_progress_fetched [OF u1] update_progress_trace [OF u1]
  have s1: "visited_urls s1 = []" "scraped_content s1 = []" "found_links s1 = [S]"
      "url_queue s1 = [S]" "fetched (trace s1) = []"
      "max_pages s1 = N" "same_domain_only s1 = sdo" "progress_callback s1 = cb"
    by (auto simp: init_def)
  have e: "extract_links E x = extract_links E (init N d sdo cb)" if "same_domain_only x = sdo"
    for x
    using that by (intro extract_links_cong) (simp add: init_def)
  from N s1 have c1: "loop_cond s1" and m1: "max_pages s1 \<noteq> 0 \<or> \<not> progress_callback s1"
    and d1: "discovered_inv s1"
    by (simp_all add: loop_cond_def set_len_def discovered_inv_def)
  from s1 lS have "extract_links E s1 hS S = Inr [B, C]" by (simp add: e)
  from crawl_iter_ok [OF m1 d1 _ _ fS this, of "[]"] s1 dist obtain s2
    where i1: "crawl_iter E 0 s1 = Inr s2"
      and s2: "visited_urls s2 = [S]" "scraped_content s2 = [(S, hS)]" "found_links s2 = [S, B, C]"
        "url_queue s2 = [B, C]" "fetched (trace s2) = [S]"
        "max_pages s2 = N" "same_domain_only s2 = sdo" "progress_callback s2 = cb"
    by auto
  from N s2 dist have c2: "loop_cond s2" and m2: "max_pages s2 \<noteq> 0 \<or> \<not> progress_callback s2"
    and d2: "discovered_inv s2"
    by (simp_all add: loop_cond_def set_len_def discovered_inv_def)
  from s2 lB have "extract_links E s2 hB B = Inr [D]" by (simp add: e)
  from crawl_iter_ok [OF m2 d2 _ _ fB this, of "[C]"] s2 dist obtain s3
    where i2: "crawl_iter E 1 s2 = Inr s3"
      and s3: "visited_urls s3 = [S, B]" "scraped_content s3 = [(S, hS), (B, hB)]"
        "found_links s3 = [S, B, C, D]"
        "url_queue s3 = [C, D]" "fetched (trace s3) = [S, B]"
        "max_pages s3 = N" "same_domain_only s3 = sdo" "progress_callback s3 = cb"
    by auto
  from N s3 dist have c3: "loop_cond s3" and m3: "max_pages s3 \<noteq> 0 \<or> \<not> progress_callback s3"
    and d3: "discovered_inv s3"
    by (simp_all add: loop_cond_def set_len_def discovered_inv_def)
  from s3 lC(1) have x3: "extract_links E s3 hC C = Inr lc" by (simp add: e)
  from lC(2) s3 have "fresh_links lc (found_links s3) = []" by (intro fresh_links_known) simp
  with crawl_iter_ok [OF m3 d3 _ _ fC x3, of "[D]"] s3 dist obtain s4
    where i3: "crawl_iter E 2 s3 = Inr s4"
      and s4: "visited_urls s4 = [S, B, C]" "scraped_content s4 = [(S, hS), (B, hB), (C, hC)]"
        "found_links s4 = [S, B, C, D]"
        "url_queue s4 = [D]" "fetched (trace s4) = [S, B, C]"
        "max_pages s4 = N" "same_domain_only s4 = sdo" "progress_callback s4 = cb"
    by auto
  from N s4 dist have c4: "loop_cond s4" and m4: "max_pages s4 \<noteq> 0 \<or> \<not> progress_callback s4"
    and d4: "discovered_inv s4"
    by (simp_all add: loop_cond_def set_len_def discovered_inv_def)
  from s4 lD(1) have x4: "extract_links E s4 hD D = Inr ld" by (simp add: e)
  from lD(2) s4 have "fresh_links ld (found_links s4) = []" by (intro fresh_links_known) simp
  with crawl_iter_ok [OF m4 d4 _ _ fD x4, of "[]"] s4 dist obtain s5
    where i4: "crawl_iter E 3 s4 = Inr s5"
      and s5: "visited_urls s5 = [S, B, C, D]"
        "scraped_content s5 = [(S, hS), (B, hB), (C, hC), (D, hD)]"
        "found_links s5 = [S, B, C, D]"
        "url_queue s5 = []" "fetched (trace s5) = [S, B, C, D]"
        "max_pages s5 = N" "same_domain_only s5 = sdo" "progress_callback s5 = cb"
    by auto
  from s5 have "\<not> loop_cond s5" by (simp add: loop_cond_def)
  then have "crawl_loop E 4 s5 = Inr s5" by (rule crawl_loop_stop)
  with crawl_loop_step [OF c1 i1] crawl_loop_step [OF c2 i2] crawl_loop_step [OF c3 i3]
    crawl_loop_step [OF c4 i4]
  have l: "crawl_loop E 0 s1 = Inr s5" by (simp add: numeral_eq_Suc)
  from N s5 have "max_pages s5 \<noteq> 0 \<or> \<not> progress_callback s5" by simp
  from update_progress_Inr [OF this] obtain s6
    where u: "update_progress (Completed (set_len (visited_urls s5)) (set_len (found_links s5)))
                None 0 s5 = Inr s6"
    by blast
  from update_progress_fetched [OF u] update_progress_trace [OF u] s5
  have s6: "visited_urls s6 = [S, B, C, D]"
    "scraped_content s6 = [(S, hS), (B, hB), (C, hC), (D, hD)]"
    "found_links s6 = [S, B, C, D]" "url_queue s6 = []" "fetched (trace s6) = [S, B, C, D]"
    by auto
  from b l u have "crawl_website E S (init N d sdo cb) = Inr (scraped_content s6, s6)"
    by (simp add: crawl_website_def)
  with s6 show ?thesis by simp
qed

text \<open>
  C4. The found links are kept in the order in which they were found. In a crawl on a
  new crawler, at every head of the loop and in the object that \<^verbatim>\<open>crawl_website\<close> leaves
  when it returns, the URLs fetched so far, in the order of their fetches, followed by
  the queue, are the found links in the order of their discovery, each once, and the
  start URL is the first: the pages are fetched in the order in which they were found.
  The visited URLs, in the order in which they were added, are among the fetched ones in
  the same order, and they are the keys of the stored content, in order. In particular,
  let the crawl start at \<open>start_url\<close>, whose links are extracted as \<open>B\<close>, \<open>C\<close> in this order,
  let \<open>B\<close> link to \<open>D\<close>, let \<open>C\<close> and \<open>D\<close> link to none but these four pages, let the four
  fetches succeed, and let \<^verbatim>\<open>max_pages\<close> be at least 4: then \<^verbatim>\<open>crawl_website\<close> returns, and
  the pages were fetched, visited and stored in the order \<open>start_url\<close>, \<open>B\<close>, \<open>C\<close>, \<open>D\<close>.
\<close>

theorem bfs_order:
  "(crawl_begin E start_url (init N d sdo cb) = Inr s1 \<and> (n, s) \<in> loop_states E s1
    \<longrightarrow> found_links s = fetched (trace s) @ url_queue s
        \<and> distinct (found_links s)
        \<and> take 1 (found_links s) = [start_url]
        \<and> subseq (visited_urls s) (fetched (trace s))
        \<and> map fst (scraped_content s) = visited_urls s)
   \<and> (crawl_website E start_url (init N d sdo cb) = Inr (content, s')
    \<longrightarrow> found_links s' = fetched (trace s') @ url_queue s'
        \<and> distinct (found_links s')
        \<and> take 1 (found_links s') = [start_url]
        \<and> subseq (visited_urls s') (fetched (trace s'))
        \<and> map fst content = visited_urls s')
   \<and> (distinct [start_url, B, C, D] \<and> 4 \<le> N
       \<and> scrape_single_page E 0 start_url = Some hS \<and> hS \<noteq> []
       \<and> scrape_single_page E 1 B = Some hB \<and> hB \<noteq> []
       \<and> scrape_single_page E 2 C = Some hC \<and> hC \<noteq> []
       \<and> scrape_single_page E 3 D = Some hD \<and> hD \<noteq> []
       \<and> extract_links E (init N d sdo cb) hS start_url = Inr [B, C]
       \<and> extract_links E (init N d sdo cb) hB B = Inr [D]
       \<and> extract_links E (init N d sdo cb) hC C = Inr lc \<and> set lc \<subseteq> {start_url, B, C, D}
       \<and> extract_links E (init N d sdo cb) hD D = Inr ld \<and> set ld \<subseteq> {start_url, B, C, D}
    \<longrightarrow> (\<exists>pages final. crawl_website E start_url (init N d sdo cb) = Inr (pages, final)
          \<and> fetched (trace final) = [start_url, B, C, D]
          \<and> visited_urls final = [start_url, B, C, D]
          \<and> map fst pages = [start_url, B, C, D]
          \<and> found_links final = [start_url, B, C, D] \<and> url_queue final = []))"
proof -
  have heads: "crawl_begin E start_url (init N d sdo cb) = Inr s1 \<and> (n, s) \<in> loop_states E s1
    \<longrightarrow> found_links s = fetched (trace s) @ url_queue s
        \<and> distinct (found_links s)
        \<and> take 1 (found_links s) = [start_url]
        \<and> subseq (visited_urls s) (fetched (trace s))
        \<and> map fst (scraped_content s) = visited_urls s"
  proof
    assume "crawl_begin E start_url (init N d sdo cb) = Inr s1 \<and> (n, s) \<in> loop_states E s1"
    then have b: "crawl_begin E start_url (init N d sdo cb) = Inr s1"
      and l: "(n, s) \<in> loop_states E s1"
      by simp_all
    from loop_states_order [OF l crawl_begin_order [OF b]]
    show "found_links s = fetched (trace s) @ url_queue s
        \<and> distinct (found_links s)
        \<and> take 1 (found_links s) = [start_url]
        \<and> subseq (visited_urls s) (fetched (trace s))
        \<and> map fst (scraped_content s) = visited_urls s"
      unfolding order_inv_def .
  qed
  have returned: "crawl_website E start_url (init N d sdo cb) = Inr (content, s')
    \<longrightarrow> found_links s' = fetched (trace s') @ url_queue s'
        \<and> distinct (found_links s')
        \<and> take 1 (found_links s') = [start_url]
        \<and> subseq (visited_urls s') (fetched (trace s'))
        \<and> map fst content = visited_urls s'"
  proof
    assume "crawl_website E start_url (init N d sdo cb) = Inr (content, s')"
    from crawl_website_order [OF this]
    have "order_inv start_url s'" and c: "content = scraped_content s'" by simp_all
    then have "found_links s' = fetched (trace s') @ url_queue s'
        \<and> distinct (found_links s')
        \<and> take 1 (found_links s') = [start_url]
        \<and> subseq (visited_urls s') (fetched (trace s'))
        \<and> map fst (scraped_content s') = visited_urls s'"
      unfolding order_inv_def by blast
    with c show "found_links s' = fetched (trace s') @ url_queue s'
        \<and> distinct (found_links s')
        \<and> take 1 (found_links s') = [start_url]
        \<and> subseq (visited_urls s') (fetched (trace s'))
        \<and> map fst content = visited_urls s'"
      by blast
  qed
  have example: "distinct [start_url, B, C, D] \<and> 4 \<le> N
       \<and> scrape_single_page E 0 start_url = Some hS \<and> hS \<noteq> []
       \<and> scrape_single_page E 1 B = Some hB \<and> hB \<noteq> []
       \<and> scrape_single_page E 2 C = Some hC \<and> hC \<noteq> []
       \<and> scrape_single_page E 3 D = Some hD \<and> hD \<noteq> []
       \<and> extract_links E (init N d sdo cb) hS start_url = Inr [B, C]
       \<and> extract_links E (init N d sdo cb) hB B = Inr [D]
       \<and> extract_links E (init N d sdo cb) hC C = Inr lc \<and> set lc \<subseteq> {start_url, B, C, D}
       \<and> extract_links E (init N d sdo cb) hD D = Inr ld \<and> set ld \<subseteq> {start_url, B, C, D}
    \<longrightarrow> (\<exists>pages final. crawl_website E start_url (init N d sdo cb) = Inr (pages, final)
          \<and> fetched (trace final) = [start_url, B, C, D]
          \<and> visited_urls final = [start_url, B, C, D]
          \<and> map fst pages = [start_url, B, C, D]
          \<and> found_links final = [start_url, B, C, D] \<and> url_queue final = [])"
  proof
    assume a: "distinct [start_url, B, C, D] \<and> 4 \<le> N
       \<and> scrape_single_page E 0 start_url = Some hS \<and> hS \<noteq> []
       \<and> scrape_single_page E 1 B = Some hB \<and> hB \<noteq> []
       \<and> scrape_single_page E 2 C = Some hC \<and> hC \<noteq> []
       \<and> scrape_single_page E 3 D = Some hD \<and> hD \<noteq> []
       \<and> extract_links E (init N d sdo cb) hS start_url = Inr [B, C]
       \<and> extract_links E (init N d sdo cb) hB B = Inr [D]
       \<and> extract_links E (init N d sdo cb) hC C = Inr lc \<and> set lc \<subseteq> {start_url, B, C, D}
       \<and> extract_links E (init N d sdo cb) hD D = Inr ld \<and> set ld \<subseteq> {start_url, B, C, D}"
    show "\<exists>pages final. crawl_website E start_url (init N d sdo cb) = Inr (pages, final)
          \<and> fetched (trace final) = [start_url, B, C, D]
          \<and> visited_urls final = [start_url, B, C, D]
          \<and> map fst pages = [start_url, B, C, D]
          \<and> found_links final = [start_url, B, C, D] \<and> url_queue final = []"
      by (rule bfs_example [of start_url B C D N E hS hB hC hD d sdo cb lc ld])
        (use a in simp_all)
  qed
  show ?thesis by (intro conjI) (rule heads returned example)+
qed

theorem bfs_order_witness:
  "(\<exists>pages final. crawl_website example_env ''https://x.com/'' (init 10 0 True False)
         = Inr (pages, final)
      \<and> fetched (trace final)
          = [''https://x.com/'', ''https://x.com/b'', ''https://x.com/c'', ''https://x.com/d'']
      \<and> visited_urls final
          = [''https://x.com/'', ''https://x.com/b'', ''https://x.com/c'', ''https://x.com/d'']
      \<and> map fst pages
          = [''https://x.com/'', ''https://x.com/b'', ''https://x.com/c'', ''https://x.com/d'']
      \<and> found_links final
          = [''https://x.com/'', ''https://x.com/b'', ''https://x.com/c'', ''https://x.com/d'']
      \<and> url_queue final = [])
   \<and> found_links example_seeded = fetched (trace example_seeded) @ url_queue example_seeded
   \<and> take 1 (found_links example_seeded) = [''https://x.com/'']"
proof (intro conjI)
  have t: "same_domain_only (init 10 0 True False)" by (simp add: init_def)
  show "\<exists>pages final. crawl_website example_env ''https://x.com/'' (init 10 0 True False)
         = Inr (pages, final)
      \<and> fetched (trace final)
          = [''https://x.com/'', ''https://x.com/b'', ''https://x.com/c'', ''https://x.com/d'']
      \<and> visited_urls final
          = [''https://x.com/'', ''https://x.com/b'', ''https://x.com/c'', ''https://x.com/d'']
      \<and> map fst pages
          = [''https://x.com/'', ''https://x.com/b'', ''https://x.com/c'', ''https://x.com/d'']
      \<and> found_links final
          = [''https://x.com/'', ''https://x.com/b'', ''https://x.com/c'', ''https://x.com/d'']
      \<and> url_queue final = []"
  proof (rule bfs_order [THEN conjunct2, THEN conjunct2, THEN mp])
    show "distinct [''https://x.com/'', ''https://x.com/b'', ''https://x.com/c'', ''https://x.com/d'']
       \<and> 4 \<le> (10::int)
       \<and> scrape_single_page example_env 0 ''https://x.com/'' = Some ''<seed>'' \<and> ''<seed>'' \<noteq> []
       \<and> scrape_single_page example_env 1 ''https://x.com/b'' = Some ''<b>'' \<and> ''<b>'' \<noteq> []
       \<and> scrape_single_page example_env 2 ''https://x.com/c'' = Some ''<c>'' \<and> ''<c>'' \<noteq> []
       \<and> scrape_single_page example_env 3 ''https://x.com/d'' = Some ''<d>'' \<and> ''<d>'' \<noteq> []
       \<and> extract_links example_env (init 10 0 True False) ''<seed>'' ''https://x.com/''
           = Inr [''https://x.com/b'', ''https://x.com/c'']
       \<and> extract_links example_env (init 10 0 True False) ''<b>'' ''https://x.com/b''
           = Inr [''https://x.com/d'']
       \<and> extract_links example_env (init 10 0 True False) ''<c>'' ''https://x.com/c''
           = Inr [''https://x.com/b'']
       \<and> set [''https://x.com/b'']
           \<subseteq> {''https://x.com/'', ''https://x.com/b'', ''https://x.com/c'', ''https://x.com/d''}
       \<and> extract_links example_env (init 10 0 True False) ''<d>'' ''https://x.com/d'' = Inr []
       \<and> set []
           \<subseteq> {''https://x.com/'', ''https://x.com/b'', ''https://x.com/c'', ''https://x.com/d''}"
      by (simp add: example_fetch example_extract [OF t])
  qed
  from bfs_order [THEN conjunct1, THEN mp, of example_env "''https://x.com/''" 10 0 True False
      example_seeded 0 example_seeded]
    example_seed(2) loop_states.start [of example_seeded example_env]
  show "found_links example_seeded = fetched (trace example_seeded) @ url_queue example_seeded"
    and "take 1 (found_links example_seeded) = [''https://x.com/'']"
    by blast+
qed

end
